theory Spec2Isabelle
  imports Main "HOL-Library.Sublist"
begin

section \<open>Strings\<close>

text \<open>
  The statement text is a Python \<open>str\<close>. It is modelled as a \<open>string\<close> whose characters
  are the code points U+0000 .. U+00FF (Latin-1), one \<open>char\<close> per code point.
\<close>

definition code :: "char \<Rightarrow> nat" where
  "code c = of_char c"

text \<open>\<open>str.lower()\<close> on one code point below U+0100: A-Z and the accented capitals
  U+00C0 .. U+00DE (without the multiplication sign U+00D7) move up by 32.\<close>

definition lower_char :: "char \<Rightarrow> char" where
  "lower_char c =
     (let n = code c
      in if (65 \<le> n \<and> n \<le> 90) \<or> (192 \<le> n \<and> n \<le> 222 \<and> n \<noteq> 215)
         then char_of (n + 32) else c)"

text \<open>The simple upper-case mapping the regex engine uses, kept inside U+0000 .. U+00FF
  (the micro sign, sharp s and y with diaeresis have no capital there).\<close>

definition upper_char :: "char \<Rightarrow> char" where
  "upper_char c =
     (let n = code c
      in if (97 \<le> n \<and> n \<le> 122) \<or> (224 \<le> n \<and> n \<le> 254 \<and> n \<noteq> 247)
         then char_of (n - 32) else c)"

definition lower :: "string \<Rightarrow> string" where
  "lower s = map lower_char s"

text \<open>Python's \<open>sub in s\<close>: \<open>sub\<close> occurs in \<open>s\<close> as a contiguous run.\<close>

fun starts_with :: "string \<Rightarrow> string \<Rightarrow> bool" where
  "starts_with [] s = True"
| "starts_with (a # as) [] = False"
| "starts_with (a # as) (c # cs) = (a = c \<and> starts_with as cs)"

fun contains :: "string \<Rightarrow> string \<Rightarrow> bool" where
  "contains sub [] = (sub = [])"
| "contains sub (c # cs) = (starts_with sub (c # cs) \<or> contains sub cs)"

text \<open>White space as \<open>str.strip()\<close> and the regex class \<open>\s\<close> see it below U+0100.\<close>

definition is_space :: "char \<Rightarrow> bool" where
  "is_space c =
     (let n = code c
      in (9 \<le> n \<and> n \<le> 13) \<or> (28 \<le> n \<and> n \<le> 32) \<or> n = 133 \<or> n = 160)"

definition is_digit :: "char \<Rightarrow> bool" where
  "is_digit c = (let n = code c in 48 \<le> n \<and> n \<le> 57)"

definition strip :: "string \<Rightarrow> string" where
  "strip s = rev (dropWhile is_space (rev (dropWhile is_space s)))"

text \<open>\<open>s.replace(old, new)\<close> for a non-empty \<open>old\<close>: left to right, non-overlapping.
  With an empty \<open>old\<close> Python inserts \<open>new\<close> around every character.\<close>

fun replace :: "string \<Rightarrow> string \<Rightarrow> string \<Rightarrow> string" where
  "replace old new [] = (if old = [] then new else [])"
| "replace old new (c # cs) =
     (if old = [] then new @ c # replace old new cs
      else if starts_with old (c # cs)
           then new @ replace old new (drop (length old) (c # cs))
           else c # replace old new cs)"

subsection \<open>Evaluation on the bits of a character\<close>

lemma code_Char [code]:
  "code (Char b0 b1 b2 b3 b4 b5 b6 b7) =
     (if b0 then 1 else 0) + (if b1 then 2 else 0) + (if b2 then 4 else 0) +
     (if b3 then 8 else 0) + (if b4 then 16 else 0) + (if b5 then 32 else 0) +
     (if b6 then 64 else 0) + (if b7 then 128 else 0)"
  by (simp add: code_def)

lemma lower_char_Char [code]:
  "lower_char (Char b0 b1 b2 b3 b4 b5 b6 b7) =
     (if b6 \<and> \<not> b5 \<and>
         (if b7 then \<not> (b0 \<and> b1 \<and> b2 \<and> b4)
          else (b0 \<or> b1 \<or> b2 \<or> b3 \<or> b4) \<and> \<not> (b4 \<and> b3 \<and> (b2 \<or> (b1 \<and> b0))))
      then Char b0 b1 b2 b3 b4 True b6 b7
      else Char b0 b1 b2 b3 b4 b5 b6 b7)"
  by (cases b0; cases b1; cases b2; cases b3; cases b4; cases b5; cases b6; cases b7;
      simp add: lower_char_def code_def char_of_def bit_Suc_0_iff)

lemma upper_char_Char [code]:
  "upper_char (Char b0 b1 b2 b3 b4 b5 b6 b7) =
     (if b6 \<and> b5 \<and>
         (if b7 then \<not> (b0 \<and> b1 \<and> b2 \<and> b4)
          else (b0 \<or> b1 \<or> b2 \<or> b3 \<or> b4) \<and> \<not> (b4 \<and> b3 \<and> (b2 \<or> (b1 \<and> b0))))
      then Char b0 b1 b2 b3 b4 False b6 b7
      else Char b0 b1 b2 b3 b4 b5 b6 b7)"
  by (cases b0; cases b1; cases b2; cases b3; cases b4; cases b5; cases b6; cases b7;
      simp add: upper_char_def code_def char_of_def bit_Suc_0_iff)

lemma is_digit_Char [code]:
  "is_digit (Char b0 b1 b2 b3 b4 b5 b6 b7) =
     (b4 \<and> b5 \<and> \<not> b6 \<and> \<not> b7 \<and> (\<not> b3 \<or> (\<not> b2 \<and> \<not> b1)))"
  by (cases b0; cases b1; cases b2; cases b3; cases b4; cases b5; cases b6; cases b7;
      simp add: is_digit_def code_def)

lemma is_space_Char [code]:
  "is_space (Char b0 b1 b2 b3 b4 b5 b6 b7) =
     (if b7 then \<not> b6 \<and> \<not> b4 \<and> \<not> b3 \<and> \<not> b1 \<and> ((b0 \<and> b2 \<and> \<not> b5) \<or> (\<not> b0 \<and> \<not> b2 \<and> b5))
      else \<not> b6 \<and>
           (if b5 then \<not> (b0 \<or> b1 \<or> b2 \<or> b3 \<or> b4)
            else if b4 then b3 \<and> b2
            else b3 \<and> (if b2 then \<not> b1 else b0 \<or> b1)))"
  by (cases b0; cases b1; cases b2; cases b3; cases b4; cases b5; cases b6; cases b7;
      simp add: is_space_def code_def)

section \<open>The fragment of Python's \<open>re\<close> that the patterns use\<close>

text \<open>Items of a character class \<open>[...]\<close>; \<open>\d\<close> and \<open>\s\<close> alone are one-item classes.\<close>

datatype citem = CChar char | CRange char char | CDigit | CSpace

datatype regex =
    Eps
  | Chr char
  | Cls "citem list"
  | Seq regex regex
  | Alt regex regex
  | Opt regex
  | Rep "citem list" nat "nat option" bool
  | Grp nat regex

text \<open>
  \<open>Opt r\<close> is the greedy \<open>r?\<close>; \<open>Rep cs lo hi greedy\<close> repeats the class \<open>cs\<close> between
  \<open>lo\<close> and \<open>hi\<close> times (\<open>None\<close>: no upper bound), greedy or lazy; \<open>Grp n r\<close> is the
  capturing group number \<open>n\<close>. A non-capturing group \<open>(?:...)\<close> is just nesting.
\<close>

fun cat :: "regex list \<Rightarrow> regex" where
  "cat [] = Eps"
| "cat [r] = r"
| "cat (r # rs) = Seq r (cat rs)"

fun alts :: "regex list \<Rightarrow> regex" where
  "alts [] = Eps"
| "alts [r] = r"
| "alts (r # rs) = Alt r (alts rs)"

definition str :: "string \<Rightarrow> regex" where
  "str s = cat (map Chr s)"

fun item_mem :: "citem \<Rightarrow> char \<Rightarrow> bool" where
  "item_mem (CChar a) c = (c = a)"
| "item_mem (CRange a b) c = (code a \<le> code c \<and> code c \<le> code b)"
| "item_mem CDigit c = is_digit c"
| "item_mem CSpace c = is_space c"

definition cls_mem :: "citem list \<Rightarrow> char \<Rightarrow> bool" where
  "cls_mem cs c = list_ex (\<lambda>i. item_mem i c) cs"

text \<open>With \<open>re.IGNORECASE\<close> (the flag \<open>ic\<close>) a character matches when one of its case
  variants does.\<close>

definition chr_match :: "bool \<Rightarrow> char \<Rightarrow> char \<Rightarrow> bool" where
  "chr_match ic p c = (if ic then lower_char c = lower_char p else c = p)"

definition cls_match :: "bool \<Rightarrow> citem list \<Rightarrow> char \<Rightarrow> bool" where
  "cls_match ic cs c =
     (if ic then cls_mem cs c \<or> cls_mem cs (lower_char c) \<or> cls_mem cs (upper_char c)
      else cls_mem cs c)"

type_synonym caps = "(nat \<times> string) list"

text \<open>The repetition counts a backtracking engine tries, in the order it tries them:
  \<open>avail\<close> is the length of the run of class characters at the front of the input.\<close>

definition rep_counts :: "nat \<Rightarrow> nat option \<Rightarrow> bool \<Rightarrow> nat \<Rightarrow> nat list" where
  "rep_counts lo hi greedy avail =
     (let top = (case hi of None \<Rightarrow> avail | Some h \<Rightarrow> min h avail);
          ks = [lo ..< Suc top]
      in if greedy then rev ks else ks)"

text \<open>
  \<open>matches ic r s g\<close>: every way the backtracking matcher can match \<open>r\<close> at the front of
  \<open>s\<close>, in the order the matcher finds them; each is the rest of the input and the groups
  captured so far (latest binding first). The head of the list is the match \<open>re\<close> reports.
\<close>

fun matches :: "bool \<Rightarrow> regex \<Rightarrow> string \<Rightarrow> caps \<Rightarrow> (string \<times> caps) list" where
  "matches ic Eps s g = [(s, g)]"
| "matches ic (Chr p) s g =
     (case s of [] \<Rightarrow> [] | c # cs \<Rightarrow> if chr_match ic p c then [(cs, g)] else [])"
| "matches ic (Cls cl) s g =
     (case s of [] \<Rightarrow> [] | c # cs \<Rightarrow> if cls_match ic cl c then [(cs, g)] else [])"
| "matches ic (Seq a b) s g =
     concat (map (\<lambda>(s', g'). matches ic b s' g') (matches ic a s g))"
| "matches ic (Alt a b) s g = matches ic a s g @ matches ic b s g"
| "matches ic (Opt a) s g = matches ic a s g @ [(s, g)]"
| "matches ic (Rep cl lo hi greedy) s g =
     map (\<lambda>k. (drop k s, g))
       (rep_counts lo hi greedy (length (takeWhile (cls_match ic cl) s)))"
| "matches ic (Grp n a) s g =
     map (\<lambda>(s', g'). (s', (n, take (length s - length s') s) # g')) (matches ic a s g)"

fun ngroups :: "regex \<Rightarrow> nat" where
  "ngroups (Seq a b) = max (ngroups a) (ngroups b)"
| "ngroups (Alt a b) = max (ngroups a) (ngroups b)"
| "ngroups (Opt a) = ngroups a"
| "ngroups (Grp n a) = max n (ngroups a)"
| "ngroups _ = 0"

record rmatch =
  m_start :: nat
  m_end :: nat
  m_groups :: nat
  m_caps :: caps

text \<open>\<open>re.search\<close>: the first position, left to right, where the pattern matches; the
  position after the last character is tried too.\<close>

fun search_rel :: "bool \<Rightarrow> regex \<Rightarrow> string \<Rightarrow> (nat \<times> nat \<times> caps) option" where
  "search_rel ic r [] =
     (case matches ic r [] [] of [] \<Rightarrow> None | (rest, g) # _ \<Rightarrow> Some (0, 0, g))"
| "search_rel ic r (c # cs) =
     (case matches ic r (c # cs) [] of
        (rest, g) # _ \<Rightarrow> Some (0, length (c # cs) - length rest, g)
      | [] \<Rightarrow> (case search_rel ic r cs of
                 None \<Rightarrow> None
               | Some (i, l, g) \<Rightarrow> Some (Suc i, l, g)))"

definition re_search :: "regex \<Rightarrow> bool \<Rightarrow> string \<Rightarrow> rmatch option" where
  "re_search r ic s =
     (case search_rel ic r s of
        None \<Rightarrow> None
      | Some (i, l, g) \<Rightarrow>
          Some \<lparr>m_start = i, m_end = i + l, m_groups = ngroups r, m_caps = g\<rparr>)"

datatype error = AttributeError | IndexError | ExtractionError

text \<open>\<open>match.group(n)\<close> for \<open>n \<ge> 1\<close>: the text of group \<open>n\<close>, \<open>None\<close> when the group took
  no part in the match, IndexError when the pattern has no such group.\<close>

definition group :: "rmatch \<Rightarrow> nat \<Rightarrow> error + string option" where
  "group m n = (if n \<le> m_groups m then Inr (map_of (m_caps m) n) else Inl IndexError)"

text \<open>
  \<open>re.finditer\<close>: the successive non-overlapping matches, left to right, each search
  starting where the previous match ended. After an empty match the model moves on by one
  character (CPython first retries a non-empty match at the same place); the transaction
  pattern never matches the empty string, see \<open>tx_match_nonempty\<close> below.
\<close>

lemma matches_suffix:
  "(rest, g') \<in> set (matches ic r s g) \<Longrightarrow> \<exists>w. s = w @ rest"
proof (induction r arbitrary: s g rest g')
  case (Seq a b)
  then obtain s1 g1 where a: "(s1, g1) \<in> set (matches ic a s g)"
    and b: "(rest, g') \<in> set (matches ic b s1 g1)"
    by auto
  from Seq.IH(1)[OF a] Seq.IH(2)[OF b] show ?case by auto
next
  case (Rep cl lo hi greedy)
  then obtain k where "rest = drop k s" by auto
  then have "s = take k s @ rest" by simp
  then show ?case by blast
qed (auto split: list.splits if_splits)

lemma matches_length:
  "(rest, g') \<in> set (matches ic r s g) \<Longrightarrow> length rest \<le> length s"
  using matches_suffix by fastforce

lemma search_rel_bound:
  "search_rel ic r s = Some (i, l, g) \<Longrightarrow> i + l \<le> length s"
proof (induction s arbitrary: i l g)
  case Nil
  then show ?case by (auto split: list.splits)
next
  case (Cons c cs)
  show ?case
  proof (cases "matches ic r (c # cs) []")
    case Nil
    with Cons.prems obtain i' where "search_rel ic r cs = Some (i', l, g)" "i = Suc i'"
      by (auto split: option.splits)
    with Cons.IH show ?thesis by fastforce
  next
    case (Cons x xs)
    with Cons.prems show ?thesis by (auto split: prod.splits)
  qed
qed

function finditer_from :: "bool \<Rightarrow> regex \<Rightarrow> nat \<Rightarrow> string \<Rightarrow> rmatch list" where
  "finditer_from ic r pos s =
     (case search_rel ic r s of
        None \<Rightarrow> []
      | Some (i, l, g) \<Rightarrow>
          \<lparr>m_start = pos + i, m_end = pos + i + l, m_groups = ngroups r, m_caps = g\<rparr> #
          (if l = 0
           then (case drop i s of [] \<Rightarrow> [] | _ # t \<Rightarrow> finditer_from ic r (pos + i + 1) t)
           else finditer_from ic r (pos + i + l) (drop (i + l) s)))"
  by pat_completeness auto
termination
proof (relation "measure (\<lambda>(ic, r, pos, s). length s)", goal_cases)
  case 1
  show ?case by simp
next
  case (2 ic r pos s x i y l g c t)
  then have "length (drop i s) = Suc (length t)" by simp
  then show ?case by simp
next
  case (3 ic r pos s x i y l g)
  then have "search_rel ic r s = Some (i, l, g)" by simp
  then have "i + l \<le> length s" by (rule search_rel_bound)
  with 3 show ?case by simp
qed

definition re_finditer :: "regex \<Rightarrow> bool \<Rightarrow> string \<Rightarrow> rmatch list" where
  "re_finditer r ic s = finditer_from ic r 0 s"

section \<open>The patterns of \<open>parser.py\<close>\<close>

text \<open>Shared pieces: \<^verbatim>\<open>[\s]+\<close>, \<^verbatim>\<open>[\s]*\<close>, \<^verbatim>\<open>[\s:]*\<close>, \<^verbatim>\<open>[\s#:]*\<close>, \<^verbatim>\<open>[xX*]\<close>,
  \<^verbatim>\<open>\d{4}\<close>.\<close>

definition ws_plus :: regex where
  "ws_plus = Rep [CSpace] 1 None True"

definition ws_star :: regex where
  "ws_star = Rep [CSpace] 0 None True"

definition ws_colon_star :: regex where
  "ws_colon_star = Rep [CSpace, CChar CHR '':''] 0 None True"

definition ws_hash_colon_star :: regex where
  "ws_hash_colon_star = Rep [CSpace, CChar CHR ''#'', CChar CHR '':''] 0 None True"

definition mask :: "citem list" where
  "mask = [CChar CHR ''x'', CChar CHR ''X'', CChar CHR ''*'']"

definition four_digits :: regex where
  "four_digits = Rep [CDigit] 4 (Some 4) True"

text \<open>\<^verbatim>\<open>\d{1,2}[/-]\d{1,2}[/-]\d{2,4}\<close>\<close>

definition date_re :: regex where
  "date_re = cat [Rep [CDigit] 1 (Some 2) True, Cls [CChar CHR ''/'', CChar CHR ''-''],
                  Rep [CDigit] 1 (Some 2) True, Cls [CChar CHR ''/'', CChar CHR ''-''],
                  Rep [CDigit] 2 (Some 4) True]"

text \<open>\<^verbatim>\<open>(?:to|-|through)\<close>\<close>

definition to_re :: regex where
  "to_re = alts [str ''to'', Chr CHR ''-'', str ''through'']"

text \<open>\<^verbatim>\<open>(?:Rs\.?|INR|USD|\$)?\<close>\<close>

definition currency :: regex where
  "currency = Opt (alts [cat [str ''Rs'', Opt (Chr CHR ''.'')], str ''INR'', str ''USD'',
                         Chr CHR ''$''])"

text \<open>\<^verbatim>\<open>[0-9,]+\.?\d*\<close>\<close>

definition amount_re :: regex where
  "amount_re = cat [Rep [CRange CHR ''0'' CHR ''9'', CChar CHR '',''] 1 None True,
                    Opt (Chr CHR ''.''), Rep [CDigit] 0 None True]"

text \<open>\<open>extract_card_last_four\<close>:
  \<^verbatim>\<open>(?:card|account)[\s#:]*(?:ending|number)?[\s#:]*[xX*]{4,12}(\d{4})\<close>,
  \<^verbatim>\<open>[xX*]{4,12}[\s-]?(\d{4})\<close>,
  \<^verbatim>\<open>(\d{4})[\s]*(?:card|account)\<close>,
  \<^verbatim>\<open>account[\s]+number[\s:]*[xX*]+(\d{4})\<close>.\<close>

definition card_patterns :: "regex list" where
  "card_patterns =
    [ cat [alts [str ''card'', str ''account''], ws_hash_colon_star,
           Opt (alts [str ''ending'', str ''number'']), ws_hash_colon_star,
           Rep mask 4 (Some 12) True, Grp 1 four_digits],
      cat [Rep mask 4 (Some 12) True, Opt (Cls [CSpace, CChar CHR ''-'']), Grp 1 four_digits],
      cat [Grp 1 four_digits, ws_star, alts [str ''card'', str ''account'']],
      cat [str ''account'', ws_plus, str ''number'', ws_colon_star, Rep mask 1 None True,
           Grp 1 four_digits] ]"

text \<open>\<open>extract_billing_cycle\<close>, with DATE for the date pattern above:
  \<^verbatim>\<open>(?:billing|statement)[\s]+(?:period|cycle|date)[\s:]*(DATE)[\s]*(?:to|-|through)[\s]*(DATE)\<close>,
  \<^verbatim>\<open>statement[\s]+from[\s:]*(DATE)[\s]*(?:to|-|through)[\s]*(DATE)\<close>,
  \<^verbatim>\<open>(DATE)[\s]*(?:to|-|through)[\s]*(DATE)\<close>.\<close>

definition billing_patterns :: "regex list" where
  "billing_patterns =
    [ cat [alts [str ''billing'', str ''statement''], ws_plus,
           alts [str ''period'', str ''cycle'', str ''date''], ws_colon_star,
           Grp 1 date_re, ws_star, to_re, ws_star, Grp 2 date_re],
      cat [str ''statement'', ws_plus, str ''from'', ws_colon_star,
           Grp 1 date_re, ws_star, to_re, ws_star, Grp 2 date_re],
      cat [Grp 1 date_re, ws_star, to_re, ws_star, Grp 2 date_re] ]"

text \<open>\<open>extract_payment_due_date\<close>:
  \<^verbatim>\<open>(?:payment|pay)[\s]+due[\s]+(?:date|by)[\s:]*(DATE)\<close>,
  \<^verbatim>\<open>due[\s]+date[\s:]*(DATE)\<close>,
  \<^verbatim>\<open>please[\s]+pay[\s]+by[\s:]*(DATE)\<close>.\<close>

definition due_patterns :: "regex list" where
  "due_patterns =
    [ cat [alts [str ''payment'', str ''pay''], ws_plus, str ''due'', ws_plus,
           alts [str ''date'', str ''by''], ws_colon_star, Grp 1 date_re],
      cat [str ''due'', ws_plus, str ''date'', ws_colon_star, Grp 1 date_re],
      cat [str ''please'', ws_plus, str ''pay'', ws_plus, str ''by'', ws_colon_star,
           Grp 1 date_re] ]"

text \<open>\<open>extract_total_amount_due\<close>, with CUR and AMOUNT for the two pieces above:
  \<^verbatim>\<open>(?:total|new|amount)[\s]+(?:balance|due|amount due)[\s:]*CUR[\s]*(AMOUNT)\<close>,
  \<^verbatim>\<open>(?:amount|payment)[\s]+due[\s:]*CUR[\s]*(AMOUNT)\<close>,
  \<^verbatim>\<open>(?:minimum|total)[\s]+(?:payment|amount)[\s]+due[\s:]*CUR[\s]*(AMOUNT)\<close>,
  \<^verbatim>\<open>new[\s]+balance[\s:]*CUR[\s]*(AMOUNT)\<close>.\<close>

definition total_patterns :: "regex list" where
  "total_patterns =
    [ cat [alts [str ''total'', str ''new'', str ''amount''], ws_plus,
           alts [str ''balance'', str ''due'', str ''amount due''], ws_colon_star,
           currency, ws_star, Grp 1 amount_re],
      cat [alts [str ''amount'', str ''payment''], ws_plus, str ''due'', ws_colon_star,
           currency, ws_star, Grp 1 amount_re],
      cat [alts [str ''minimum'', str ''total''], ws_plus,
           alts [str ''payment'', str ''amount''], ws_plus, str ''due'', ws_colon_star,
           currency, ws_star, Grp 1 amount_re],
      cat [str ''new'', ws_plus, str ''balance'', ws_colon_star,
           currency, ws_star, Grp 1 amount_re] ]"

text \<open>\<open>extract_transactions\<close>:
  \<^verbatim>\<open>(DATE)[\s]+([A-Za-z\s\*&\-\.]+?)[\s]+CUR[\s]*([0-9,]+\.?\d{2})\<close>.\<close>

definition tx_desc :: regex where
  "tx_desc = Rep [CRange CHR ''A'' CHR ''Z'', CRange CHR ''a'' CHR ''z'', CSpace,
                  CChar CHR ''*'', CChar CHR ''&'', CChar CHR ''-'', CChar CHR ''.'']
                 1 None False"

definition tx_amount :: regex where
  "tx_amount = cat [Rep [CRange CHR ''0'' CHR ''9'', CChar CHR '',''] 1 None True,
                    Opt (Chr CHR ''.''), Rep [CDigit] 2 (Some 2) True]"

definition tx_pattern :: regex where
  "tx_pattern = cat [Grp 1 date_re, ws_plus, Grp 2 tx_desc, ws_plus, currency, ws_star,
                     Grp 3 tx_amount]"

section \<open>The parser\<close>

record parser =
  pdf_path :: string
  text_content :: string
  issuer :: "string option"

text \<open>\<open>__init__\<close>\<close>

definition init :: "string \<Rightarrow> parser" where
  "init path = \<lparr>pdf_path = path, text_content = [], issuer = None\<rparr>"

text \<open>
  \<open>extract_text\<close>. What pdfplumber finds at \<open>pdf_path\<close> is a parameter: \<open>None\<close> when the
  file cannot be opened, otherwise the pages, each with the value of its
  \<open>extract_text()\<close> (\<open>None\<close> for a page without text, where \<open>+\<close> raises). Every exception
  is re-raised as one \<open>Exception\<close>.
\<close>

type_synonym pdf = "string option list option"

fun join_pages :: "string option list \<Rightarrow> string \<Rightarrow> error + string" where
  "join_pages [] text = Inr text"
| "join_pages (None # ps) text = Inl ExtractionError"
| "join_pages (Some t # ps) text = join_pages ps (text @ t @ [CHR 0x0A])"

definition extract_text :: "pdf \<Rightarrow> parser \<Rightarrow> error + (string \<times> parser)" where
  "extract_text doc p =
     (case doc of
        None \<Rightarrow> Inl ExtractionError
      | Some pages \<Rightarrow>
          (case join_pages pages [] of
             Inl e \<Rightarrow> Inl e
           | Inr text \<Rightarrow> Inr (text, p\<lparr>text_content := text\<rparr>)))"

definition issuer_name :: "string \<Rightarrow> string" where
  "issuer_name text =
     (let text_lower = lower text
      in if contains ''american express'' text_lower \<or> contains ''amex'' text_lower
           then ''American Express''
         else if contains ''chase'' text_lower \<and>
                 (contains ''credit card'' text_lower \<or> contains ''visa'' text_lower \<or>
                  contains ''mastercard'' text_lower)
           then ''Chase''
         else if contains ''citibank'' text_lower \<or> contains ''citi'' text_lower
           then ''Citibank''
         else if contains ''hdfc'' text_lower then ''HDFC Bank''
         else if contains ''icici'' text_lower then ''ICICI Bank''
         else ''Unknown'')"

definition identify_issuer :: "parser \<Rightarrow> string \<times> parser" where
  "identify_issuer p =
     (let name = issuer_name (text_content p) in (name, p\<lparr>issuer := Some name\<rparr>))"

text \<open>The loop shared by the four field extractors: the patterns in order, each searched
  with \<open>re.IGNORECASE\<close>; \<open>found\<close> is the body of \<open>if match:\<close>, which returns.\<close>

fun try_patterns ::
  "regex list \<Rightarrow> string \<Rightarrow> (rmatch \<Rightarrow> error + 'a option) \<Rightarrow> error + 'a option" where
  "try_patterns [] text found = Inr None"
| "try_patterns (pat # pats) text found =
     (case re_search pat True text of
        Some m \<Rightarrow> found m
      | None \<Rightarrow> try_patterns pats text found)"

definition extract_card_last_four :: "string \<Rightarrow> error + string option" where
  "extract_card_last_four text = try_patterns card_patterns text (\<lambda>m. group m 1)"

record billing_cycle =
  start_date :: "string option"
  end_date :: "string option"

definition extract_billing_cycle :: "string \<Rightarrow> error + billing_cycle option" where
  "extract_billing_cycle text =
     try_patterns billing_patterns text
       (\<lambda>m. case group m 1 of
               Inl e \<Rightarrow> Inl e
             | Inr a \<Rightarrow> (case group m 2 of
                          Inl e \<Rightarrow> Inl e
                        | Inr b \<Rightarrow> Inr (Some \<lparr>start_date = a, end_date = b\<rparr>)))"

definition extract_payment_due_date :: "string \<Rightarrow> error + string option" where
  "extract_payment_due_date text = try_patterns due_patterns text (\<lambda>m. group m 1)"

text \<open>A method called on \<open>None\<close> raises AttributeError.\<close>

definition extract_total_amount_due :: "string \<Rightarrow> error + string option" where
  "extract_total_amount_due text =
     try_patterns total_patterns text
       (\<lambda>m. case group m 1 of
               Inl e \<Rightarrow> Inl e
             | Inr None \<Rightarrow> Inl AttributeError
             | Inr (Some a) \<Rightarrow> Inr (Some (replace '','' [] a)))"

record transaction =
  date :: "string option"
  description :: string
  amount :: string

definition make_transaction :: "rmatch \<Rightarrow> error + transaction" where
  "make_transaction m =
     (case group m 1 of
        Inl e \<Rightarrow> Inl e
      | Inr d \<Rightarrow>
     (case group m 2 of
        Inl e \<Rightarrow> Inl e
      | Inr None \<Rightarrow> Inl AttributeError
      | Inr (Some de) \<Rightarrow>
     (case group m 3 of
        Inl e \<Rightarrow> Inl e
      | Inr None \<Rightarrow> Inl AttributeError
      | Inr (Some a) \<Rightarrow>
          Inr \<lparr>date = d, description = strip de, amount = replace '','' [] a\<rparr>)))"

text \<open>The \<open>for match in matches\<close> loop with its \<open>break\<close> at ten transactions.\<close>

fun collect :: "rmatch list \<Rightarrow> transaction list \<Rightarrow> error + transaction list" where
  "collect [] transactions = Inr transactions"
| "collect (m # ms) transactions =
     (case make_transaction m of
        Inl e \<Rightarrow> Inl e
      | Inr t \<Rightarrow>
          (let transactions' = transactions @ [t]
           in if length transactions' \<ge> 10 then Inr transactions'
              else collect ms transactions'))"

text \<open>The pattern is searched case-sensitively; \<open>re.MULTILINE\<close> changes only \<open>^\<close> and
  \<open>$\<close>, which the pattern does not use.\<close>

definition extract_transactions :: "string \<Rightarrow> error + transaction list" where
  "extract_transactions text = collect (re_finditer tx_pattern False text) []"

record result =
  r_issuer :: string
  r_card_last_four :: "string option"
  r_billing_cycle :: "billing_cycle option"
  r_payment_due_date :: "string option"
  r_total_amount_due :: "string option"
  r_transactions :: "transaction list"

text \<open>\<open>parse\<close> after its call of \<open>extract_text\<close>: the issuer, then the five data points.\<close>

definition parse_content :: "parser \<Rightarrow> error + (result \<times> parser)" where
  "parse_content p0 =
     (case identify_issuer p0 of (iss, p) \<Rightarrow>
     (case extract_card_last_four (text_content p) of Inl e \<Rightarrow> Inl e | Inr last4 \<Rightarrow>
     (case extract_billing_cycle (text_content p) of Inl e \<Rightarrow> Inl e | Inr cyc \<Rightarrow>
     (case extract_payment_due_date (text_content p) of Inl e \<Rightarrow> Inl e | Inr due \<Rightarrow>
     (case extract_total_amount_due (text_content p) of Inl e \<Rightarrow> Inl e | Inr tot \<Rightarrow>
     (case extract_transactions (text_content p) of Inl e \<Rightarrow> Inl e | Inr txs \<Rightarrow>
        Inr (\<lparr>r_issuer = iss, r_card_last_four = last4, r_billing_cycle = cyc,
              r_payment_due_date = due, r_total_amount_due = tot, r_transactions = txs\<rparr>,
             p)))))))"

definition parse :: "pdf \<Rightarrow> parser \<Rightarrow> error + (result \<times> parser)" where
  "parse doc p =
     (case extract_text doc p of
        Inl e \<Rightarrow> Inl e
      | Inr (text, p') \<Rightarrow> parse_content p')"

definition parse_statement :: "pdf \<Rightarrow> string \<Rightarrow> error + result" where
  "parse_statement doc path =
     (case parse doc (init path) of Inl e \<Rightarrow> Inl e | Inr (r, p) \<Rightarrow> Inr r)"

section \<open>Properties of the matcher\<close>

text \<open>\<open>binds r n\<close>: every match of \<open>r\<close> passes through a group number \<open>n\<close>.\<close>

fun binds :: "regex \<Rightarrow> nat \<Rightarrow> bool" where
  "binds (Grp k a) n = (k = n \<or> binds a n)"
| "binds (Seq a b) n = (binds a n \<or> binds b n)"
| "binds (Alt a b) n = (binds a n \<and> binds b n)"
| "binds _ n = False"

lemma matches_keeps:
  "(rest, g') \<in> set (matches ic r s g) \<Longrightarrow> map_of g n \<noteq> None \<Longrightarrow> map_of g' n \<noteq> None"
proof (induction r arbitrary: s g rest g')
  case (Seq a b)
  then obtain s1 g1 where a: "(s1, g1) \<in> set (matches ic a s g)"
    and b: "(rest, g') \<in> set (matches ic b s1 g1)"
    by auto
  from Seq.IH(1)[OF a Seq.prems(2)] have "map_of g1 n \<noteq> None" .
  from Seq.IH(2)[OF b this] show ?case .
next
  case (Grp k a)
  then obtain g1 where a: "(rest, g1) \<in> set (matches ic a s g)"
    and g': "g' = (k, take (length s - length rest) s) # g1"
    by auto
  from Grp.IH[OF a Grp.prems(2)] g' show ?case by auto
qed (auto split: list.splits if_splits)

lemma matches_binds:
  "(rest, g') \<in> set (matches ic r s g) \<Longrightarrow> binds r n \<Longrightarrow> map_of g' n \<noteq> None"
proof (induction r arbitrary: s g rest g')
  case (Seq a b)
  then obtain s1 g1 where a: "(s1, g1) \<in> set (matches ic a s g)"
    and b: "(rest, g') \<in> set (matches ic b s1 g1)"
    by auto
  show ?case
  proof (cases "binds a n")
    case True
    from Seq.IH(1)[OF a True] have "map_of g1 n \<noteq> None" .
    from matches_keeps[OF b this] show ?thesis .
  next
    case False
    with Seq.prems(2) have "binds b n" by simp
    from Seq.IH(2)[OF b this] show ?thesis .
  qed
next
  case (Alt a b)
  then show ?case by auto
next
  case (Grp k a)
  then obtain g1 where a: "(rest, g1) \<in> set (matches ic a s g)"
    and g': "g' = (k, take (length s - length rest) s) # g1"
    by auto
  show ?case
  proof (cases "k = n")
    case True
    with g' show ?thesis by simp
  next
    case False
    with Grp.prems(2) have "binds a n" by simp
    from Grp.IH[OF a this] g' show ?thesis by auto
  qed
qed auto

text \<open>What a successful search reports: the head of the matcher's list at the first
  position where the list is not empty.\<close>

lemma search_rel_Some:
  "search_rel ic r s = Some (i, l, g) \<Longrightarrow>
     i \<le> length s \<and>
     (\<exists>rest ms. matches ic r (drop i s) [] = (rest, g) # ms \<and>
                l = length s - i - length rest) \<and>
     (\<forall>j<i. matches ic r (drop j s) [] = [])"
proof (induction s arbitrary: i l g)
  case Nil
  then show ?case by (auto split: list.splits)
next
  case (Cons c cs)
  show ?case
  proof (cases "matches ic r (c # cs) []")
    case Nil
    with Cons.prems obtain i' where s: "search_rel ic r cs = Some (i', l, g)" and i: "i = Suc i'"
      by (auto split: option.splits)
    from Cons.IH[OF s] have ih: "i' \<le> length cs"
      "\<exists>rest ms. matches ic r (drop i' cs) [] = (rest, g) # ms \<and> l = length cs - i' - length rest"
      "\<forall>j<i'. matches ic r (drop j cs) [] = []" by auto
    have "\<forall>j<i. matches ic r (drop j (c # cs)) [] = []"
    proof (intro allI impI)
      fix j assume "j < i"
      then show "matches ic r (drop j (c # cs)) [] = []"
        using Nil ih(3) i by (cases j) auto
    qed
    with ih i show ?thesis by simp
  next
    case (Cons x xs)
    with Cons.prems show ?thesis by (auto split: prod.splits)
  qed
qed

lemma search_rel_None:
  "search_rel ic r s = None \<Longrightarrow> j \<le> length s \<Longrightarrow> matches ic r (drop j s) [] = []"
proof (induction s arbitrary: j)
  case Nil
  then show ?case by (auto split: list.splits)
next
  case (Cons c cs)
  then have h: "matches ic r (c # cs) [] = []" "search_rel ic r cs = None"
    by (auto split: list.splits option.splits)
  show ?case
  proof (cases j)
    case 0
    with h show ?thesis by simp
  next
    case (Suc j')
    with Cons.prems have "j' \<le> length cs" by simp
    from Cons.IH[OF h(2) this] Suc show ?thesis by simp
  qed
qed

lemma search_rel_match:
  assumes "search_rel ic r s = Some (i, l, g)"
  shows "i + l \<le> length s"
    and "\<exists>ms. matches ic r (drop i s) [] = (drop (i + l) s, g) # ms"
    and "\<forall>j<i. matches ic r (drop j s) [] = []"
proof -
  from search_rel_Some[OF assms] obtain rest ms where
    i: "i \<le> length s" and m: "matches ic r (drop i s) [] = (rest, g) # ms"
    and l: "l = length s - i - length rest"
    and none: "\<forall>j<i. matches ic r (drop j s) [] = []" by blast
  from m have "(rest, g) \<in> set (matches ic r (drop i s) [])" by simp
  then obtain w where w: "drop i s = w @ rest" by (blast dest: matches_suffix)
  then have "length s - i = length w + length rest"
    by (metis length_append length_drop)
  with l have lw: "l = length w" by simp
  with w have "rest = drop l (drop i s)" by simp
  then have rest: "rest = drop (i + l) s" by (simp add: add.commute)
  from w lw i show "i + l \<le> length s"
    by (metis \<open>length s - i = length w + length rest\<close> add_leD1 le_diff_conv2 add.commute le_add1 ordered_cancel_comm_monoid_diff_class.add_diff_inverse nat_add_left_cancel_le)
  from m rest show "\<exists>ms. matches ic r (drop i s) [] = (drop (i + l) s, g) # ms" by simp
  from none show "\<forall>j<i. matches ic r (drop j s) [] = []" .
qed

declare finditer_from.simps [simp del]

text \<open>\<open>found_at ic r s m\<close>: \<open>m\<close> is the match the engine reports for \<open>r\<close> at position
  \<open>m_start m\<close> of \<open>s\<close>.\<close>

definition found_at :: "bool \<Rightarrow> regex \<Rightarrow> string \<Rightarrow> rmatch \<Rightarrow> bool" where
  "found_at ic r s m =
     (m_start m \<le> m_end m \<and> m_end m \<le> length s \<and> m_groups m = ngroups r \<and>
      (\<exists>ms. matches ic r (drop (m_start m) s) [] = (drop (m_end m) s, m_caps m) # ms))"

lemma finditer_from_found:
  "m \<in> set (finditer_from ic r pos s) \<Longrightarrow>
     pos \<le> m_start m \<and> m_start m \<le> m_end m \<and> m_end m \<le> pos + length s \<and>
     m_groups m = ngroups r \<and>
     (\<exists>ms. matches ic r (drop (m_start m - pos) s) [] =
             (drop (m_end m - pos) s, m_caps m) # ms)"
proof (induction ic r pos s arbitrary: m rule: finditer_from.induct)
  case (1 ic r pos s)
  show ?case
  proof (cases "search_rel ic r s")
    case None
    with "1.prems" show ?thesis by (simp add: finditer_from.simps)
  next
    case (Some x)
    then obtain i l g where x: "search_rel ic r s = Some (i, l, g)" by (cases x) auto
    note sr = search_rel_match[OF x]
    let ?m0 = "\<lparr>m_start = pos + i, m_end = pos + i + l, m_groups = ngroups r, m_caps = g\<rparr>"
    have unf: "finditer_from ic r pos s = ?m0 #
          (if l = 0
           then (case drop i s of [] \<Rightarrow> [] | _ # t \<Rightarrow> finditer_from ic r (pos + i + 1) t)
           else finditer_from ic r (pos + i + l) (drop (i + l) s))"
      using x by (subst finditer_from.simps) simp
    from "1.prems" consider (hd) "m = ?m0"
      | (empty) c t where "l = 0" "drop i s = c # t" "m \<in> set (finditer_from ic r (pos + i + 1) t)"
      | (step) "l \<noteq> 0" "m \<in> set (finditer_from ic r (pos + i + l) (drop (i + l) s))"
      unfolding unf by (auto split: if_splits list.splits) metis
    then show ?thesis
    proof cases
      case hd
      with sr show ?thesis by simp
    next
      case empty
      from "1.IH"(1)[OF x refl refl empty(1) empty(2) empty(3)]
      obtain ms where ih: "pos + i + 1 \<le> m_start m" "m_start m \<le> m_end m"
        "m_end m \<le> pos + i + 1 + length t" "m_groups m = ngroups r"
        "matches ic r (drop (m_start m - (pos + i + 1)) t) [] =
           (drop (m_end m - (pos + i + 1)) t, m_caps m) # ms"
        by blast
      from empty(2) have t: "t = drop (Suc i) s"
        by (metis drop_Suc drop_drop list.sel(3) plus_1_eq_Suc tl_drop)
      from empty(2) have "i < length s" by (metis drop_all list.distinct(1) not_le)
      then have len: "i + 1 + length t = length s" using t by simp
      have d: "drop (k - (pos + i + 1)) t = drop (k - pos) s" if "pos + i + 1 \<le> k" for k
      proof -
        from that have "k - (pos + i + 1) + Suc i = k - pos" by arith
        then show ?thesis unfolding t by (simp only: drop_drop)
      qed
      from ih(1,2) have e: "pos + i + 1 \<le> m_end m" by simp
      from ih(5) have "matches ic r (drop (m_start m - pos) s) [] =
           (drop (m_end m - pos) s, m_caps m) # ms"
        unfolding d[OF ih(1)] d[OF e] .
      moreover from ih(3) len have "m_end m \<le> pos + length s" by simp
      ultimately show ?thesis using ih(1,2,4) by auto
    next
      case step
      from "1.IH"(2)[OF x refl refl step(1) step(2)]
      obtain ms where ih: "pos + i + l \<le> m_start m" "m_start m \<le> m_end m"
        "m_end m \<le> pos + i + l + length (drop (i + l) s)" "m_groups m = ngroups r"
        "matches ic r (drop (m_start m - (pos + i + l)) (drop (i + l) s)) [] =
           (drop (m_end m - (pos + i + l)) (drop (i + l) s), m_caps m) # ms"
        by blast
      have d: "drop (k - (pos + i + l)) (drop (i + l) s) = drop (k - pos) s"
        if "pos + i + l \<le> k" for k
      proof -
        from that have "k - (pos + i + l) + (i + l) = k - pos" by arith
        then show ?thesis by (simp only: drop_drop)
      qed
      from ih(1,2) have e: "pos + i + l \<le> m_end m" by simp
      from ih(5) have "matches ic r (drop (m_start m - pos) s) [] =
           (drop (m_end m - pos) s, m_caps m) # ms"
        unfolding d[OF ih(1)] d[OF e] .
      moreover from ih(3) sr(1) have "m_end m \<le> pos + length s" by simp
      ultimately show ?thesis using ih(1,2,4) by auto
    qed
  qed
qed

lemma finditer_from_sorted:
  "sorted_wrt (\<lambda>a b. m_end a \<le> m_start b) (finditer_from ic r pos s)"
proof (induction ic r pos s rule: finditer_from.induct)
  case (1 ic r pos s)
  show ?case
  proof (cases "search_rel ic r s")
    case None
    then show ?thesis by (simp add: finditer_from.simps)
  next
    case (Some x)
    then obtain i l g where x: "search_rel ic r s = Some (i, l, g)" by (cases x) auto
    show ?thesis
    proof (cases "l = 0")
      case True
      show ?thesis
      proof (cases "drop i s")
        case Nil
        with x True show ?thesis by (subst finditer_from.simps) simp
      next
        case (Cons c t)
        from "1.IH"(1)[OF x refl refl True Cons]
        have "sorted_wrt (\<lambda>a b. m_end a \<le> m_start b) (finditer_from ic r (pos + i + 1) t)" .
        moreover have "\<forall>m \<in> set (finditer_from ic r (pos + i + 1) t). pos + i + l \<le> m_start m"
          using finditer_from_found True by fastforce
        ultimately show ?thesis using x True Cons
          by (subst finditer_from.simps) simp
      qed
    next
      case False
      from "1.IH"(2)[OF x refl refl False]
      have "sorted_wrt (\<lambda>a b. m_end a \<le> m_start b) (finditer_from ic r (pos + i + l) (drop (i + l) s))" .
      moreover have "\<forall>m \<in> set (finditer_from ic r (pos + i + l) (drop (i + l) s)). pos + i + l \<le> m_start m"
        using finditer_from_found by fastforce
      ultimately show ?thesis using x False
        by (subst finditer_from.simps) simp
    qed
  qed
qed

section \<open>Issuer identification\<close>

text \<open>The class attribute \<open>SUPPORTED_ISSUERS\<close>.\<close>

definition SUPPORTED_ISSUERS :: "string list" where
  "SUPPORTED_ISSUERS =
     [''American Express'', ''Chase'', ''Citibank'', ''HDFC Bank'', ''ICICI Bank'']"

text \<open>The priority cascade in the words of the specification: the issuers in declaration
  order, each with its condition on the lower-cased text; the first whose condition
  holds wins.\<close>

definition issuer_conditions :: "(string \<times> (string \<Rightarrow> bool)) list" where
  "issuer_conditions =
     [(''American Express'', \<lambda>t. contains ''american express'' t \<or> contains ''amex'' t),
      (''Chase'', \<lambda>t. contains ''chase'' t \<and>
                       (contains ''credit card'' t \<or> contains ''visa'' t \<or>
                        contains ''mastercard'' t)),
      (''Citibank'', \<lambda>t. contains ''citibank'' t \<or> contains ''citi'' t),
      (''HDFC Bank'', \<lambda>t. contains ''hdfc'' t),
      (''ICICI Bank'', \<lambda>t. contains ''icici'' t)]"

text \<open>\<open>wins rules t i\<close>: rule \<open>i\<close> is the first whose condition holds on \<open>t\<close>.\<close>

definition wins :: "(string \<times> (string \<Rightarrow> bool)) list \<Rightarrow> string \<Rightarrow> nat \<Rightarrow> bool" where
  "wins rules t i =
     (i < length rules \<and> snd (rules ! i) t \<and> (\<forall>j<i. \<not> snd (rules ! j) t))"

lemma starts_with_prefix: "starts_with sub s \<longleftrightarrow> prefix sub s"
  by (induction sub s rule: starts_with.induct) auto

lemma contains_sublist: "contains sub s \<longleftrightarrow> sublist sub s"
  by (induction s) (auto simp: starts_with_prefix sublist_Cons_right)

lemma contains_append_left: "contains (a @ b) s \<Longrightarrow> contains a s"
  unfolding contains_sublist by (metis sublist_order.order_trans sublist_append_rightI)

lemma contains_append_right: "contains (a @ b) s \<Longrightarrow> contains b s"
  unfolding contains_sublist by (metis sublist_order.order_trans sublist_append_leftI)

lemma contains_citizen: "contains ''citizen'' s \<Longrightarrow> contains ''citi'' s"
  using contains_append_left[of "''citi''" "''zen''" s] by simp

lemma contains_purchase: "contains ''purchase'' s \<Longrightarrow> contains ''chase'' s"
  using contains_append_right[of "''pur''" "''chase''" s] by simp

lemma issuer_name_known: "issuer_name text \<in> set SUPPORTED_ISSUERS \<union> {''Unknown''}"
  by (simp add: issuer_name_def SUPPORTED_ISSUERS_def Let_def)

fun cascade :: "(string \<times> (string \<Rightarrow> bool)) list \<Rightarrow> string \<Rightarrow> string" where
  "cascade [] t = ''Unknown''"
| "cascade ((name, cond) # rules) t = (if cond t then name else cascade rules t)"

lemma cascade_wins: "wins rules t i \<Longrightarrow> cascade rules t = fst (rules ! i)"
proof (induction rules arbitrary: i)
  case Nil
  then show ?case by (simp add: wins_def)
next
  case (Cons rule rules)
  obtain name cond where rule: "rule = (name, cond)" by (cases rule)
  show ?case
  proof (cases i)
    case 0
    with Cons.prems rule show ?thesis by (simp add: wins_def)
  next
    case (Suc k)
    from Cons.prems Suc have "\<not> snd ((rule # rules) ! 0) t"
      unfolding wins_def by blast
    then have no: "\<not> cond t" using rule by simp
    have "wins rules t k"
      unfolding wins_def
    proof (intro conjI allI impI)
      from Cons.prems Suc show "k < length rules" "snd (rules ! k) t"
        by (simp_all add: wins_def)
    next
      fix j assume "j < k"
      then have "Suc j < i" using Suc by simp
      with Cons.prems have "\<not> snd ((rule # rules) ! Suc j) t"
        unfolding wins_def by blast
      then show "\<not> snd (rules ! j) t" by simp
    qed
    from Cons.IH[OF this] no rule Suc show ?thesis by simp
  qed
qed

lemma cascade_none:
  "\<forall>i<length rules. \<not> snd (rules ! i) t \<Longrightarrow> cascade rules t = ''Unknown''"
proof (induction rules)
  case Nil
  then show ?case by simp
next
  case (Cons rule rules)
  obtain name cond where rule: "rule = (name, cond)" by (cases rule)
  from Cons.prems have "\<not> snd ((rule # rules) ! 0) t" by blast
  then have no: "\<not> cond t" using rule by simp
  have "\<forall>i<length rules. \<not> snd (rules ! i) t"
  proof (intro allI impI)
    fix i assume "i < length rules"
    then have "Suc i < length (rule # rules)" by simp
    with Cons.prems have "\<not> snd ((rule # rules) ! Suc i) t" by blast
    then show "\<not> snd (rules ! i) t" by simp
  qed
  from Cons.IH[OF this] no rule show ?case by simp
qed

lemma issuer_name_cascade: "issuer_name text = cascade issuer_conditions (lower text)"
  by (auto simp: issuer_name_def issuer_conditions_def Let_def)

text \<open>
  C1. \<open>identify_issuer\<close> returns one of the five supported issuer names or "Unknown".
  On the lower-cased text the issuers are tried in declaration order and the first whose
  condition holds gives the name; when none holds the name is "Unknown". A text with
  "chase" but none of "credit card", "visa", "mastercard" is never named Chase.
\<close>

theorem identify_issuer_cascade:
  "(let t = lower (text_content p); name = fst (identify_issuer p)
    in name \<in> set SUPPORTED_ISSUERS \<union> {''Unknown''} \<and>
       map fst issuer_conditions = SUPPORTED_ISSUERS \<and>
       (\<forall>i. wins issuer_conditions t i \<longrightarrow> name = fst (issuer_conditions ! i)) \<and>
       ((\<forall>i<length issuer_conditions. \<not> snd (issuer_conditions ! i) t) \<longrightarrow> name = ''Unknown'') \<and>
       (contains ''chase'' t \<and> \<not> contains ''credit card'' t \<and> \<not> contains ''visa'' t \<and>
        \<not> contains ''mastercard'' t \<longrightarrow> name \<noteq> ''Chase''))"
proof -
  define t where "t = lower (text_content p)"
  have name: "fst (identify_issuer p) = issuer_name (text_content p)"
    by (simp add: identify_issuer_def Let_def)
  have 1: "issuer_name (text_content p) \<in> set SUPPORTED_ISSUERS \<union> {''Unknown''}"
    by (rule issuer_name_known)
  have 2: "map fst issuer_conditions = SUPPORTED_ISSUERS"
    by (simp add: issuer_conditions_def SUPPORTED_ISSUERS_def)
  have 3: "\<forall>i. wins issuer_conditions t i \<longrightarrow>
             issuer_name (text_content p) = fst (issuer_conditions ! i)"
    unfolding issuer_name_cascade t_def by (blast dest: cascade_wins)
  have 4: "(\<forall>i<length issuer_conditions. \<not> snd (issuer_conditions ! i) t) \<longrightarrow>
             issuer_name (text_content p) = ''Unknown''"
    unfolding issuer_name_cascade t_def by (blast dest: cascade_none)
  have 5: "contains ''chase'' t \<and> \<not> contains ''credit card'' t \<and> \<not> contains ''visa'' t \<and>
        \<not> contains ''mastercard'' t \<longrightarrow> issuer_name (text_content p) \<noteq> ''Chase''"
    by (simp add: issuer_name_def Let_def t_def)
  from 1 2 3 4 5 show ?thesis
    unfolding Let_def name t_def by blast
qed

theorem identify_issuer_cascade_witness:
  "fst (identify_issuer \<lparr>pdf_path = ''a.pdf'', text_content = ''Your CHASE Visa; pay Citi or HDFC'', issuer = None\<rparr>) = ''Chase'' \<and>
   fst (identify_issuer \<lparr>pdf_path = ''a.pdf'', text_content = ''Chase the sun'', issuer = None\<rparr>) = ''Unknown''"
proof -
  let ?p = "\<lparr>pdf_path = ''a.pdf'', text_content = ''Your CHASE Visa; pay Citi or HDFC'', issuer = None\<rparr>"
  let ?q = "\<lparr>pdf_path = ''a.pdf'', text_content = ''Chase the sun'', issuer = None\<rparr>"
  have w: "wins issuer_conditions (lower (text_content ?p)) 1"
    by code_simp
  have n: "\<forall>i<length issuer_conditions. \<not> snd (issuer_conditions ! i) (lower (text_content ?q))"
    by code_simp
  have f: "fst (issuer_conditions ! 1) = ''Chase''" by (simp add: issuer_conditions_def)
  from identify_issuer_cascade[of ?p] w f have "fst (identify_issuer ?p) = ''Chase''"
    unfolding Let_def by metis
  moreover from identify_issuer_cascade[of ?q] n have "fst (identify_issuer ?q) = ''Unknown''"
    unfolding Let_def by metis
  ultimately show ?thesis by simp
qed

lemma re_search_found: "re_search r ic s = Some m \<Longrightarrow> found_at ic r s m"
proof -
  assume a: "re_search r ic s = Some m"
  then obtain i l g where x: "search_rel ic r s = Some (i, l, g)"
    and m: "m = \<lparr>m_start = i, m_end = i + l, m_groups = ngroups r, m_caps = g\<rparr>"
    by (auto simp: re_search_def split: option.splits)
  from search_rel_match[OF x] m show ?thesis by (simp add: found_at_def)
qed

lemma re_search_None:
  "re_search r ic s = None \<Longrightarrow> j \<le> length s \<Longrightarrow> matches ic r (drop j s) [] = []"
  by (rule search_rel_None) (auto simp: re_search_def split: option.splits)

lemma re_finditer_found: "m \<in> set (re_finditer r ic s) \<Longrightarrow> found_at ic r s m"
  using finditer_from_found[of m ic r 0 s] by (simp add: re_finditer_def found_at_def)

lemma re_finditer_sorted:
  "sorted_wrt (\<lambda>a b. m_end a \<le> m_start b) (re_finditer r ic s)"
  unfolding re_finditer_def by (rule finditer_from_sorted)

lemma found_group:
  assumes "found_at ic r s m" "binds r n" "n \<le> ngroups r"
  shows "\<exists>w. group m n = Inr (Some w)"
proof -
  from assms(1) obtain ms where
    "matches ic r (drop (m_start m) s) [] = (drop (m_end m) s, m_caps m) # ms"
    and g: "m_groups m = ngroups r"
    by (auto simp: found_at_def)
  then have "(drop (m_end m) s, m_caps m) \<in> set (matches ic r (drop (m_start m) s) [])"
    by simp
  from matches_binds[OF this assms(2)] g assms(3) show ?thesis
    by (auto simp: group_def)
qed

lemma try_patterns_total:
  "(\<And>pat m. pat \<in> set pats \<Longrightarrow> re_search pat True text = Some m \<Longrightarrow> \<exists>v. found m = Inr v)
   \<Longrightarrow> \<exists>v. try_patterns pats text found = Inr v"
proof (induction pats)
  case Nil
  then show ?case by simp
next
  case (Cons pat pats)
  show ?case
  proof (cases "re_search pat True text")
    case None
    have "\<exists>v. try_patterns pats text found = Inr v"
      by (rule Cons.IH) (rule Cons.prems, simp_all)
    with None show ?thesis by simp
  next
    case (Some m)
    with Cons.prems[of pat m] show ?thesis by simp
  qed
qed

section \<open>The groups of the patterns\<close>

lemma ngroups_str [simp]: "ngroups (str s) = 0"
  unfolding str_def by (induction s rule: induct_list012) auto

lemma binds_str [simp]: "\<not> binds (str s) n"
  unfolding str_def by (induction s rule: induct_list012) auto

lemmas piece_defs = ws_plus_def ws_star_def ws_colon_star_def ws_hash_colon_star_def
  four_digits_def date_re_def to_re_def currency_def amount_re_def tx_desc_def tx_amount_def

lemma card_patterns_bind: "pat \<in> set card_patterns \<Longrightarrow> binds pat 1 \<and> 1 \<le> ngroups pat"
  unfolding card_patterns_def piece_defs by auto

lemma billing_patterns_bind:
  "pat \<in> set billing_patterns \<Longrightarrow> binds pat 1 \<and> binds pat 2 \<and> 2 \<le> ngroups pat"
  unfolding billing_patterns_def piece_defs by auto

lemma due_patterns_bind: "pat \<in> set due_patterns \<Longrightarrow> binds pat 1 \<and> 1 \<le> ngroups pat"
  unfolding due_patterns_def piece_defs by auto

lemma total_patterns_bind: "pat \<in> set total_patterns \<Longrightarrow> binds pat 1 \<and> 1 \<le> ngroups pat"
  unfolding total_patterns_def piece_defs by auto

lemma tx_pattern_bind:
  "binds tx_pattern 1 \<and> binds tx_pattern 2 \<and> binds tx_pattern 3 \<and> 3 \<le> ngroups tx_pattern"
  unfolding tx_pattern_def piece_defs by simp

section \<open>The extractors return\<close>

lemma re_search_group:
  assumes "re_search pat ic text = Some m" "binds pat n" "n \<le> ngroups pat"
  shows "\<exists>w. group m n = Inr (Some w)"
  using found_group[OF re_search_found[OF assms(1)] assms(2,3)] .

lemma extract_card_last_four_total: "\<exists>v. extract_card_last_four text = Inr v"
  unfolding extract_card_last_four_def
proof (rule try_patterns_total)
  fix pat m assume "pat \<in> set card_patterns" "re_search pat True text = Some m"
  with card_patterns_bind[of pat] re_search_group[of pat True "text" m 1]
  show "\<exists>v. group m 1 = Inr v" by auto
qed

lemma extract_payment_due_date_total: "\<exists>v. extract_payment_due_date text = Inr v"
  unfolding extract_payment_due_date_def
proof (rule try_patterns_total)
  fix pat m assume "pat \<in> set due_patterns" "re_search pat True text = Some m"
  with due_patterns_bind[of pat] re_search_group[of pat True "text" m 1]
  show "\<exists>v. group m 1 = Inr v" by auto
qed

lemma extract_billing_cycle_total: "\<exists>v. extract_billing_cycle text = Inr v"
  unfolding extract_billing_cycle_def
proof (rule try_patterns_total)
  fix pat m assume a: "pat \<in> set billing_patterns" "re_search pat True text = Some m"
  from billing_patterns_bind[OF a(1)] have b: "binds pat 1" "binds pat 2" "2 \<le> ngroups pat"
    by simp_all
  from re_search_group[OF a(2) b(1)] b(3) obtain w1 where "group m 1 = Inr (Some w1)" by auto
  moreover from re_search_group[OF a(2) b(2)] b(3) obtain w2 where "group m 2 = Inr (Some w2)"
    by auto
  ultimately show "\<exists>v. (case group m 1 of Inl e \<Rightarrow> Inl e
         | Inr a \<Rightarrow> (case group m 2 of Inl e \<Rightarrow> Inl e
             | Inr b \<Rightarrow> Inr (Some \<lparr>start_date = a, end_date = b\<rparr>))) = Inr v"
    by simp
qed

lemma extract_total_amount_due_total: "\<exists>v. extract_total_amount_due text = Inr v"
  unfolding extract_total_amount_due_def
proof (rule try_patterns_total)
  fix pat m assume a: "pat \<in> set total_patterns" "re_search pat True text = Some m"
  from total_patterns_bind[OF a(1)] have b: "binds pat 1" "1 \<le> ngroups pat" by simp_all
  from re_search_group[OF a(2) b] obtain w where "group m 1 = Inr (Some w)" by auto
  then show "\<exists>v. (case group m 1 of Inl e \<Rightarrow> Inl e | Inr None \<Rightarrow> Inl AttributeError
         | Inr (Some a) \<Rightarrow> Inr (Some (replace '','' [] a))) = Inr v"
    by simp
qed

lemma make_transaction_found:
  assumes "found_at False tx_pattern s m"
  shows "\<exists>d de a. group m 1 = Inr (Some d) \<and> group m 2 = Inr (Some de) \<and>
           group m 3 = Inr (Some a) \<and>
           make_transaction m =
             Inr \<lparr>date = Some d, description = strip de, amount = replace '','' [] a\<rparr>"
proof -
  from tx_pattern_bind have b: "binds tx_pattern 1" "binds tx_pattern 2" "binds tx_pattern 3"
    "1 \<le> ngroups tx_pattern" "2 \<le> ngroups tx_pattern" "3 \<le> ngroups tx_pattern"
    by simp_all
  from found_group[OF assms b(1) b(4)] obtain d where d: "group m 1 = Inr (Some d)" by auto
  from found_group[OF assms b(2) b(5)] obtain de where de: "group m 2 = Inr (Some de)" by auto
  from found_group[OF assms b(3) b(6)] obtain a where a: "group m 3 = Inr (Some a)" by auto
  from d de a show ?thesis by (simp add: make_transaction_def)
qed

lemma collect_take:
  assumes "\<And>m. m \<in> set ms \<Longrightarrow> \<exists>t. make_transaction m = Inr t" "length acc < 10"
  shows "\<exists>txs. collect ms acc = Inr (acc @ txs) \<and>
           list_all2 (\<lambda>m t. make_transaction m = Inr t) (take (10 - length acc) ms) txs"
  using assms
proof (induction ms arbitrary: acc)
  case Nil
  then show ?case by simp
next
  case (Cons m ms)
  from Cons.prems(1)[of m] obtain t where t: "make_transaction m = Inr t" by auto
  from Cons.prems(2) obtain k where k: "10 - length acc = Suc k" by (cases "10 - length acc") auto
  show ?case
  proof (cases "length (acc @ [t]) \<ge> 10")
    case True
    with Cons.prems(2) have "k = 0" using k by simp
    with t True k show ?thesis by (simp add: Let_def)
  next
    case False
    then have lt: "length (acc @ [t]) < 10" by simp
    have "\<exists>txs. collect ms (acc @ [t]) = Inr ((acc @ [t]) @ txs) \<and>
           list_all2 (\<lambda>m t. make_transaction m = Inr t) (take (10 - length (acc @ [t])) ms) txs"
      by (rule Cons.IH) (use Cons.prems(1) lt in auto)
    then obtain txs where txs: "collect ms (acc @ [t]) = Inr (acc @ t # txs)"
      "list_all2 (\<lambda>m t. make_transaction m = Inr t) (take (10 - length (acc @ [t])) ms) txs"
      by auto
    from k have "10 - length (acc @ [t]) = k" by simp
    with txs t False k show ?thesis by (simp add: Let_def)
  qed
qed

lemma extract_transactions_take:
  "\<exists>txs. extract_transactions text = Inr txs \<and>
         list_all2 (\<lambda>m t. make_transaction m = Inr t)
           (take 10 (re_finditer tx_pattern False text)) txs"
proof -
  have "\<exists>txs. collect (re_finditer tx_pattern False text) [] = Inr ([] @ txs) \<and>
           list_all2 (\<lambda>m t. make_transaction m = Inr t)
             (take (10 - length ([]::transaction list)) (re_finditer tx_pattern False text)) txs"
  proof (rule collect_take)
    fix m assume "m \<in> set (re_finditer tx_pattern False text)"
    from make_transaction_found[OF re_finditer_found[OF this]]
    show "\<exists>t. make_transaction m = Inr t" by blast
  qed simp
  then show ?thesis by (simp add: extract_transactions_def)
qed

lemma parse_content_total:
  "\<exists>r. parse_content p = Inr (r, p\<lparr>issuer := Some (issuer_name (text_content p))\<rparr>) \<and>
        r_issuer r = issuer_name (text_content p)"
proof -
  obtain a where a: "extract_card_last_four (text_content p) = Inr a"
    using extract_card_last_four_total by blast
  obtain b where b: "extract_billing_cycle (text_content p) = Inr b"
    using extract_billing_cycle_total by blast
  obtain c where c: "extract_payment_due_date (text_content p) = Inr c"
    using extract_payment_due_date_total by blast
  obtain d where d: "extract_total_amount_due (text_content p) = Inr d"
    using extract_total_amount_due_total by blast
  obtain e where e: "extract_transactions (text_content p) = Inr e"
    using extract_transactions_take by blast
  from a b c d e show ?thesis
    by (simp add: parse_content_def identify_issuer_def Let_def)
qed

section \<open>The whole parse\<close>

lemma parse_content_empty:
  "parse_content (p\<lparr>text_content := []\<rparr>) =
     Inr (\<lparr>r_issuer = ''Unknown'', r_card_last_four = None, r_billing_cycle = None,
            r_payment_due_date = None, r_total_amount_due = None, r_transactions = []\<rparr>,
          p\<lparr>text_content := [], issuer := Some ''Unknown''\<rparr>)"
proof -
  have 1: "issuer_name [] = ''Unknown''" by code_simp
  have 2: "extract_card_last_four [] = Inr None" by code_simp
  have 3: "extract_billing_cycle [] = Inr None" by code_simp
  have 4: "extract_payment_due_date [] = Inr None" by code_simp
  have 5: "extract_total_amount_due [] = Inr None" by code_simp
  have 6: "extract_transactions [] = Inr []" by code_simp
  show ?thesis
    by (simp add: parse_content_def identify_issuer_def Let_def 1 2 3 4 5 6)
qed

text \<open>
  C8. On every text the pipeline after text extraction (issuer, the four field extractors,
  the transactions, the result) returns a result and raises nothing, and so does each
  extractor alone; on the empty text the result is issuer "Unknown", the four fields
  absent and no transactions.
\<close>

theorem parse_never_raises:
  "(\<exists>r p'. parse_content p = Inr (r, p')) \<and>
   (\<exists>v. extract_card_last_four text = Inr v) \<and>
   (\<exists>v. extract_billing_cycle text = Inr v) \<and>
   (\<exists>v. extract_payment_due_date text = Inr v) \<and>
   (\<exists>v. extract_total_amount_due text = Inr v) \<and>
   (\<exists>v. extract_transactions text = Inr v) \<and>
   parse_content (p\<lparr>text_content := []\<rparr>) =
     Inr (\<lparr>r_issuer = ''Unknown'', r_card_last_four = None, r_billing_cycle = None,
            r_payment_due_date = None, r_total_amount_due = None, r_transactions = []\<rparr>,
          p\<lparr>text_content := [], issuer := Some ''Unknown''\<rparr>)"
proof -
  have "\<exists>r p'. parse_content p = Inr (r, p')"
    using parse_content_total[of p] by blast
  moreover have "\<exists>v. extract_transactions text = Inr v"
    using extract_transactions_take[of "text"] by blast
  ultimately show ?thesis
    using extract_card_last_four_total extract_billing_cycle_total
      extract_payment_due_date_total extract_total_amount_due_total parse_content_empty
    by blast
qed

theorem parse_never_raises_witness:
  "\<exists>r p'. parse_content \<lparr>pdf_path = ''s.pdf'', text_content = ''no fields here'', issuer = None\<rparr>
     = Inr (r, p')"
  using parse_never_raises[of "\<lparr>pdf_path = ''s.pdf'', text_content = ''no fields here'', issuer = None\<rparr>" "[]"]
  by blast

text \<open>
  C9. The issuer of every parse result is one of the five supported names or "Unknown";
  the result always has it, and the parser object holds the same name.
\<close>

theorem parse_issuer_known:
  "(\<exists>r p'. parse_content p = Inr (r, p') \<and>
            r_issuer r \<in> set SUPPORTED_ISSUERS \<union> {''Unknown''} \<and>
            issuer p' = Some (r_issuer r)) \<and>
   (parse doc p = Inr (r, p') \<longrightarrow>
      r_issuer r \<in> set SUPPORTED_ISSUERS \<union> {''Unknown''} \<and> issuer p' = Some (r_issuer r)) \<and>
   (parse_statement doc path = Inr r \<longrightarrow> r_issuer r \<in> set SUPPORTED_ISSUERS \<union> {''Unknown''})"
proof -
  have known: "r_issuer r \<in> set SUPPORTED_ISSUERS \<union> {''Unknown''} \<and> issuer p' = Some (r_issuer r)"
    if "parse_content q = Inr (r, p')" for q :: parser and r p'
  proof -
    from parse_content_total[of q] that
    have "r_issuer r = issuer_name (text_content q)"
      "p' = q\<lparr>issuer := Some (issuer_name (text_content q))\<rparr>" by auto
    with issuer_name_known[of "text_content q"] show ?thesis by simp
  qed
  have 1: "\<exists>r p'. parse_content p = Inr (r, p') \<and>
            r_issuer r \<in> set SUPPORTED_ISSUERS \<union> {''Unknown''} \<and>
            issuer p' = Some (r_issuer r)"
    using parse_content_total[of p] known by blast
  have 2: "parse doc p = Inr (r, p') \<longrightarrow>
      r_issuer r \<in> set SUPPORTED_ISSUERS \<union> {''Unknown''} \<and> issuer p' = Some (r_issuer r)"
    using known by (auto simp: parse_def split: sum.splits prod.splits)
  have 3: "parse_statement doc path = Inr r \<longrightarrow> r_issuer r \<in> set SUPPORTED_ISSUERS \<union> {''Unknown''}"
    using known by (auto simp: parse_statement_def parse_def split: sum.splits prod.splits)
  from 1 2 3 show ?thesis by blast
qed

lemma parse_statement_example:
  "parse_statement (Some [Some ''HDFC Bank Credit Card Statement'']) ''s.pdf'' =
     Inr \<lparr>r_issuer = ''HDFC Bank'', r_card_last_four = None, r_billing_cycle = None,
           r_payment_due_date = None, r_total_amount_due = None, r_transactions = []\<rparr>"
  by code_simp

theorem parse_issuer_known_witness:
  "parse_statement (Some [Some ''HDFC Bank Credit Card Statement'']) ''s.pdf'' =
     Inr \<lparr>r_issuer = ''HDFC Bank'', r_card_last_four = None, r_billing_cycle = None,
           r_payment_due_date = None, r_total_amount_due = None, r_transactions = []\<rparr> \<and>
   ''HDFC Bank'' \<in> set SUPPORTED_ISSUERS \<union> {''Unknown''}"
  using parse_statement_example
    parse_issuer_known[where doc = "Some [Some ''HDFC Bank Credit Card Statement'']"
      and path = "''s.pdf''"
      and r = "\<lparr>r_issuer = ''HDFC Bank'', r_card_last_four = None, r_billing_cycle = None,
           r_payment_due_date = None, r_total_amount_due = None, r_transactions = []\<rparr>"]
  by simp

section \<open>Substring matching of issuer keywords\<close>

text \<open>
  C10. The keywords are matched as plain substrings of the lower-cased text, with no word
  boundary: a text with "citizen" and none of "american express", "amex", "chase" is named
  Citibank, and a text with "purchase" and "visa" and no American Express keyword is named
  Chase; two texts that name no issuer show it.
\<close>

theorem substring_false_positives:
  "(let t = lower (text_content p); name = fst (identify_issuer p)
    in (contains ''citizen'' t \<and> \<not> contains ''american express'' t \<and> \<not> contains ''amex'' t \<and>
        \<not> contains ''chase'' t \<longrightarrow> name = ''Citibank'') \<and>
       (contains ''purchase'' t \<and> contains ''visa'' t \<and> \<not> contains ''american express'' t \<and>
        \<not> contains ''amex'' t \<longrightarrow> name = ''Chase'')) \<and>
   issuer_name ''Senior citizen discount applied'' = ''Citibank'' \<and>
   issuer_name ''Purchase protection on your Visa'' = ''Chase''"
proof -
  define t where "t = lower (text_content p)"
  have name: "fst (identify_issuer p) = issuer_name (text_content p)"
    by (simp add: identify_issuer_def Let_def)
  have 1: "contains ''citizen'' t \<and> \<not> contains ''american express'' t \<and> \<not> contains ''amex'' t \<and>
        \<not> contains ''chase'' t \<longrightarrow> issuer_name (text_content p) = ''Citibank''"
    using contains_citizen[of t] by (simp add: issuer_name_def Let_def t_def)
  have 2: "contains ''purchase'' t \<and> contains ''visa'' t \<and> \<not> contains ''american express'' t \<and>
        \<not> contains ''amex'' t \<longrightarrow> issuer_name (text_content p) = ''Chase''"
    using contains_purchase[of t] by (simp add: issuer_name_def Let_def t_def)
  have 3: "issuer_name ''Senior citizen discount applied'' = ''Citibank''" by code_simp
  have 4: "issuer_name ''Purchase protection on your Visa'' = ''Chase''" by code_simp
  from 1 2 3 4 show ?thesis unfolding Let_def name t_def by blast
qed

theorem substring_false_positives_witness:
  "fst (identify_issuer \<lparr>pdf_path = ''s.pdf'', text_content = ''Dear Citizen, thank you'', issuer = None\<rparr>)
     = ''Citibank'' \<and>
   fst (identify_issuer \<lparr>pdf_path = ''s.pdf'', text_content = ''PURCHASES made with VISA'', issuer = None\<rparr>)
     = ''Chase''"
proof -
  let ?p = "\<lparr>pdf_path = ''s.pdf'', text_content = ''Dear Citizen, thank you'', issuer = None\<rparr>"
  let ?q = "\<lparr>pdf_path = ''s.pdf'', text_content = ''PURCHASES made with VISA'', issuer = None\<rparr>"
  have a: "contains ''citizen'' (lower (text_content ?p)) \<and>
           \<not> contains ''american express'' (lower (text_content ?p)) \<and>
           \<not> contains ''amex'' (lower (text_content ?p)) \<and>
           \<not> contains ''chase'' (lower (text_content ?p))"
    by code_simp
  have b: "contains ''purchase'' (lower (text_content ?q)) \<and>
           contains ''visa'' (lower (text_content ?q)) \<and>
           \<not> contains ''american express'' (lower (text_content ?q)) \<and>
           \<not> contains ''amex'' (lower (text_content ?q))"
    by code_simp
  from substring_false_positives[of ?p] a have "fst (identify_issuer ?p) = ''Citibank''"
    unfolding Let_def by blast
  moreover from substring_false_positives[of ?q] b have "fst (identify_issuer ?q) = ''Chase''"
    unfolding Let_def by blast
  ultimately show ?thesis by simp
qed

section \<open>What the groups of a match hold\<close>

text \<open>The strings a pattern can match, without the order of the search.\<close>

fun lang :: "bool \<Rightarrow> regex \<Rightarrow> string set" where
  "lang ic Eps = {[]}"
| "lang ic (Chr p) = {[c] | c. chr_match ic p c}"
| "lang ic (Cls cl) = {[c] | c. cls_match ic cl c}"
| "lang ic (Seq a b) = {u @ v | u v. u \<in> lang ic a \<and> v \<in> lang ic b}"
| "lang ic (Alt a b) = lang ic a \<union> lang ic b"
| "lang ic (Opt a) = insert [] (lang ic a)"
| "lang ic (Rep cl lo hi greedy) =
     {w. list_all (cls_match ic cl) w \<and> lo \<le> length w \<and>
         (case hi of None \<Rightarrow> True | Some h \<Rightarrow> length w \<le> h)}"
| "lang ic (Grp n a) = lang ic a"

text \<open>The strings group \<open>n\<close> of a pattern can hold.\<close>

fun grp_lang :: "bool \<Rightarrow> regex \<Rightarrow> nat \<Rightarrow> string set" where
  "grp_lang ic (Grp k a) n = (if k = n then lang ic a else {}) \<union> grp_lang ic a n"
| "grp_lang ic (Seq a b) n = grp_lang ic a n \<union> grp_lang ic b n"
| "grp_lang ic (Alt a b) n = grp_lang ic a n \<union> grp_lang ic b n"
| "grp_lang ic (Opt a) n = grp_lang ic a n"
| "grp_lang ic _ n = {}"

lemma rep_counts_bounds:
  "k \<in> set (rep_counts lo hi greedy avail) \<Longrightarrow>
     lo \<le> k \<and> k \<le> avail \<and> (case hi of None \<Rightarrow> True | Some h \<Rightarrow> k \<le> h)"
  by (auto simp: rep_counts_def Let_def split: option.splits if_splits)

lemma take_takeWhile_all:
  "k \<le> length (takeWhile P s) \<Longrightarrow> list_all P (take k s)"
proof -
  assume "k \<le> length (takeWhile P s)"
  then have "take k s = take k (takeWhile P s)"
    by (metis append_eq_conv_conj takeWhile_dropWhile_id take_all take_append take_take min.absorb1 diff_is_0_eq' take_0 append_Nil2)
  moreover have "list_all P (takeWhile P s)"
    by (simp add: list_all_iff) (meson set_takeWhileD)
  ultimately show ?thesis
    by (metis list_all_iff in_set_takeD)
qed

lemma matches_lang:
  "(rest, g') \<in> set (matches ic r s g) \<Longrightarrow> \<exists>w \<in> lang ic r. s = w @ rest"
proof (induction r arbitrary: s g rest g')
  case (Seq a b)
  then obtain s1 g1 where a: "(s1, g1) \<in> set (matches ic a s g)"
    and b: "(rest, g') \<in> set (matches ic b s1 g1)"
    by auto
  from Seq.IH(1)[OF a] obtain u where u: "u \<in> lang ic a" "s = u @ s1" by blast
  from Seq.IH(2)[OF b] obtain v where v: "v \<in> lang ic b" "s1 = v @ rest" by blast
  from u v have "u @ v \<in> lang ic (Seq a b)" "s = (u @ v) @ rest" by auto
  then show ?case by blast
next
  case (Rep cl lo hi greedy)
  then obtain k where k: "k \<in> set (rep_counts lo hi greedy (length (takeWhile (cls_match ic cl) s)))"
    and rest: "rest = drop k s" by auto
  from rep_counts_bounds[OF k] have b: "lo \<le> k" "k \<le> length (takeWhile (cls_match ic cl) s)"
    "case hi of None \<Rightarrow> True | Some h \<Rightarrow> k \<le> h" by auto
  from b(2) have "k \<le> length s"
    by (meson le_trans length_takeWhile_le)
  then have len: "length (take k s) = k" by simp
  from take_takeWhile_all[OF b(2)] b(1,3) len have "take k s \<in> lang ic (Rep cl lo hi greedy)"
    by (auto split: option.splits)
  moreover have "s = take k s @ rest" using rest by simp
  ultimately show ?case by blast
next
  case (Grp n a)
  then obtain g1 where "(rest, g1) \<in> set (matches ic a s g)" by auto
  from Grp.IH[OF this] show ?case by simp
next
  case (Alt a b)
  from Alt.prems consider "(rest, g') \<in> set (matches ic a s g)"
    | "(rest, g') \<in> set (matches ic b s g)" by auto
  then show ?case
  proof cases
    case 1
    from Alt.IH(1)[OF this] show ?thesis by auto
  next
    case 2
    from Alt.IH(2)[OF this] show ?thesis by auto
  qed
next
  case (Opt a)
  from Opt.prems consider "(rest, g') \<in> set (matches ic a s g)" | "rest = s" by auto
  then show ?case
  proof cases
    case 1
    from Opt.IH[OF this] show ?thesis by auto
  next
    case 2
    then show ?thesis by simp
  qed
qed (auto split: list.splits if_splits)

lemma matches_caps:
  "(rest, g') \<in> set (matches ic r s g) \<Longrightarrow> map_of g' n = Some w \<Longrightarrow>
     map_of g n = Some w \<or> w \<in> grp_lang ic r n"
proof (induction r arbitrary: s g rest g')
  case (Seq a b)
  then obtain s1 g1 where a: "(s1, g1) \<in> set (matches ic a s g)"
    and b: "(rest, g') \<in> set (matches ic b s1 g1)"
    by auto
  from Seq.IH(2)[OF b Seq.prems(2)] have "map_of g1 n = Some w \<or> w \<in> grp_lang ic b n" .
  then show ?case
  proof
    assume "map_of g1 n = Some w"
    from Seq.IH(1)[OF a this] show ?thesis by auto
  next
    assume "w \<in> grp_lang ic b n"
    then show ?thesis by simp
  qed
next
  case (Alt a b)
  then show ?case by auto
next
  case (Opt a)
  then show ?case by auto
next
  case (Grp k a)
  then obtain g1 where a: "(rest, g1) \<in> set (matches ic a s g)"
    and g': "g' = (k, take (length s - length rest) s) # g1"
    by auto
  from matches_lang[OF a] obtain u where u: "u \<in> lang ic a" "s = u @ rest" by blast
  then have tk: "take (length s - length rest) s = u" by simp
  show ?case
  proof (cases "k = n")
    case True
    with g' Grp.prems(2) tk u(1) show ?thesis by simp
  next
    case False
    with g' Grp.prems(2) have "map_of g1 n = Some w" by simp
    from Grp.IH[OF a this] show ?thesis by auto
  qed
qed (auto split: list.splits if_splits)

lemma found_group_lang:
  assumes "found_at ic r s m" "group m n = Inr (Some w)"
  shows "w \<in> grp_lang ic r n"
proof -
  from assms(1) obtain ms where
    "matches ic r (drop (m_start m) s) [] = (drop (m_end m) s, m_caps m) # ms"
    by (auto simp: found_at_def)
  then have "(drop (m_end m) s, m_caps m) \<in> set (matches ic r (drop (m_start m) s) [])"
    by simp
  moreover from assms(2) have "map_of (m_caps m) n = Some w"
    by (auto simp: group_def split: if_splits)
  ultimately show ?thesis using matches_caps by fastforce
qed

lemma grp_lang_str [simp]: "grp_lang ic (str s) n = {}"
  unfolding str_def by (induction s rule: induct_list012) auto

lemma replace_comma: "replace '','' [] a = filter (\<lambda>c. c \<noteq> CHR '','') a"
  by (induction a) auto

lemma extract_transactions_elem:
  assumes "extract_transactions text = Inr txs" "t \<in> set txs"
  shows "\<exists>m d de a. m \<in> set (re_finditer tx_pattern False text) \<and>
           found_at False tx_pattern text m \<and>
           group m 1 = Inr (Some d) \<and> group m 2 = Inr (Some de) \<and> group m 3 = Inr (Some a) \<and>
           t = \<lparr>date = Some d, description = strip de, amount = replace '','' [] a\<rparr>"
proof -
  from extract_transactions_take[of "text"] assms(1)
  have l: "list_all2 (\<lambda>m t. make_transaction m = Inr t)
             (take 10 (re_finditer tx_pattern False text)) txs" by auto
  from assms(2) obtain i where i: "i < length txs" "txs ! i = t"
    by (auto simp: in_set_conv_nth)
  let ?ms = "take 10 (re_finditer tx_pattern False text)"
  from list_all2_lengthD[OF l] i(1) have len: "i < length ?ms" by simp
  from list_all2_nthD[OF l len] i(2) have mk: "make_transaction (?ms ! i) = Inr t" by simp
  from len have "?ms ! i \<in> set ?ms" by (rule nth_mem)
  then have mem: "?ms ! i \<in> set (re_finditer tx_pattern False text)" by (rule in_set_takeD)
  from re_finditer_found[OF mem] have f: "found_at False tx_pattern text (?ms ! i)" .
  from make_transaction_found[OF f] mk mem f show ?thesis by auto
qed

lemma try_patterns_Some:
  "try_patterns pats text found = Inr (Some v) \<Longrightarrow>
     \<exists>pat \<in> set pats. \<exists>m. re_search pat True text = Some m \<and> found m = Inr (Some v)"
  by (induction pats) (auto split: option.splits)

lemma code_digits: "code CHR ''0'' = 48" "code CHR ''9'' = 57"
  by (simp_all add: code_def)

lemma digit_class:
  "cls_match False [CRange CHR ''0'' CHR ''9'', CChar CHR '',''] c \<Longrightarrow> c \<noteq> CHR '','' \<Longrightarrow>
     is_digit c"
  by (simp add: cls_match_def cls_mem_def code_digits is_digit_def)

lemma digit_only_class: "cls_match False [CDigit] c = is_digit c"
  by (simp add: cls_match_def cls_mem_def)

lemma not_comma_digit: "is_digit c \<Longrightarrow> c \<noteq> CHR '',''"
  by (auto simp: is_digit_def code_def)

lemma lang_Seq:
  "w \<in> lang ic (Seq a b) \<longleftrightarrow> (\<exists>u v. w = u @ v \<and> u \<in> lang ic a \<and> v \<in> lang ic b)"
  by auto

lemma tx_amount_group:
  assumes "w \<in> grp_lang False tx_pattern 3"
  shows "\<exists>u p d1 d2. w = u @ p @ [d1, d2] \<and> u \<noteq> [] \<and>
           list_all (cls_match False [CRange CHR ''0'' CHR ''9'', CChar CHR '','']) u \<and>
           (p = [] \<or> p = ''.'') \<and> is_digit d1 \<and> is_digit d2"
proof -
  from assms have "w \<in> lang False tx_amount"
    unfolding tx_pattern_def piece_defs by (simp split: if_splits)
  then have "\<exists>u p d. w = u @ p @ d \<and>
      u \<in> lang False (Rep [CRange CHR ''0'' CHR ''9'', CChar CHR '',''] 1 None True) \<and>
      p \<in> lang False (Opt (Chr CHR ''.'')) \<and> d \<in> lang False (Rep [CDigit] 2 (Some 2) True)"
    unfolding tx_amount_def cat.simps lang_Seq by blast
  then obtain u p d where w: "w = u @ p @ d"
    and u0: "u \<in> lang False (Rep [CRange CHR ''0'' CHR ''9'', CChar CHR '',''] 1 None True)"
    and p0: "p \<in> lang False (Opt (Chr CHR ''.''))"
    and d0: "d \<in> lang False (Rep [CDigit] 2 (Some 2) True)"
    by blast
  from u0 have u: "list_all (cls_match False [CRange CHR ''0'' CHR ''9'', CChar CHR '','']) u"
    "1 \<le> length u" by simp_all
  from p0 have p: "p = [] \<or> (\<exists>c. p = [c] \<and> chr_match False CHR ''.'' c)" by auto
  from d0 have d: "list_all (cls_match False [CDigit]) d" "length d = 2" by simp_all
  from d(2) obtain d1 d2 where dd: "d = [d1, d2]"
    by (metis (no_types, opaque_lifting) One_nat_def Suc_1 length_0_conv length_Suc_conv)
  from p have p': "p = [] \<or> p = ''.''" by (auto simp: chr_match_def)
  from u(2) have "u \<noteq> []" by auto
  with w u(1) p' d(1) dd show ?thesis by (auto simp: digit_only_class)
qed

lemma amount_shape:
  assumes "w \<in> grp_lang False tx_pattern 3"
  shows "\<exists>ds p d1 d2. replace '','' [] w = ds @ p @ [d1, d2] \<and> list_all is_digit ds \<and>
           (p = [] \<or> p = ''.'') \<and> is_digit d1 \<and> is_digit d2"
proof -
  from tx_amount_group[OF assms] obtain u p d1 d2 where w: "w = u @ p @ [d1, d2]"
    and u: "list_all (cls_match False [CRange CHR ''0'' CHR ''9'', CChar CHR '','']) u"
    and p: "p = [] \<or> p = ''.''" and d: "is_digit d1" "is_digit d2" by blast
  let ?ds = "filter (\<lambda>c. c \<noteq> CHR '','') u"
  from u have "list_all is_digit ?ds"
    by (auto simp: list_all_iff dest: digit_class)
  moreover from p d have "filter (\<lambda>c. c \<noteq> CHR '','') (p @ [d1, d2]) = p @ [d1, d2]"
    by (auto dest: not_comma_digit)
  then have "replace '','' [] w = ?ds @ p @ [d1, d2]"
    unfolding replace_comma w by simp
  ultimately show ?thesis using p d by blast
qed

section \<open>Amounts\<close>

text \<open>
  C6, as amended. Every amount that \<open>extract_transactions\<close> returns is a run of digits
  (possibly empty, the commas removed), then at most one decimal point, then exactly two
  digits. The decimal point is optional in the pattern, so an amount without one is
  produced, as for the text "05/01/2024 COFFEE 450".
\<close>

theorem transaction_amount_shape:
  assumes "extract_transactions text = Inr txs" "t \<in> set txs"
  shows "\<exists>ds p d1 d2. amount t = ds @ p @ [d1, d2] \<and> list_all is_digit ds \<and>
           (p = [] \<or> p = ''.'') \<and> is_digit d1 \<and> is_digit d2"
proof -
  from extract_transactions_elem[OF assms] obtain m a where
    f: "found_at False tx_pattern text m" and g: "group m 3 = Inr (Some a)"
    and t: "amount t = replace '','' [] a" by auto
  from found_group_lang[OF f g] have "a \<in> grp_lang False tx_pattern 3" .
  from amount_shape[OF this] t show ?thesis by simp
qed

lemma tx_example_plain:
  "extract_transactions ''05/01/2024 COFFEE 450'' =
     Inr [\<lparr>date = Some ''05/01/2024'', description = ''COFFEE'', amount = ''450''\<rparr>]"
  by code_simp

lemma tx_example_comma:
  "extract_transactions ''01/02/2024 GROCERY STORE 1,234.56'' =
     Inr [\<lparr>date = Some ''01/02/2024'', description = ''GROCERY STORE'', amount = ''1234.56''\<rparr>]"
  by code_simp

theorem transaction_amount_shape_witness:
  "\<exists>ds p d1 d2. ''1234.56'' = ds @ p @ [d1, d2] \<and> list_all is_digit ds \<and>
           (p = [] \<or> p = ''.'') \<and> is_digit d1 \<and> is_digit d2"
  using transaction_amount_shape[OF tx_example_comma,
      of "\<lparr>date = Some ''01/02/2024'', description = ''GROCERY STORE'', amount = ''1234.56''\<rparr>"]
  by simp

theorem transaction_amount_point_counterexample:
  "extract_transactions ''05/01/2024 COFFEE 450'' =
     Inr [\<lparr>date = Some ''05/01/2024'', description = ''COFFEE'', amount = ''450''\<rparr>] \<and>
   CHR ''.'' \<notin> set ''450''"
  using tx_example_plain by simp

lemma total_example_comma:
  "extract_total_amount_due ''Total amount due 1,234.56'' = Inr (Some ''1234.56'')"
  by code_simp

text \<open>
  C7. An amount returned by \<open>extract_total_amount_due\<close> or in a transaction is the
  captured group with every comma removed, so it holds no comma; "1,234.56" becomes
  "1234.56".
\<close>

theorem amounts_without_commas:
  "(extract_total_amount_due text = Inr (Some a) \<longrightarrow>
      CHR '','' \<notin> set a \<and>
      (\<exists>pat \<in> set total_patterns. \<exists>m g. re_search pat True text = Some m \<and>
          group m 1 = Inr (Some g) \<and> a = filter (\<lambda>c. c \<noteq> CHR '','') g)) \<and>
   (extract_transactions text = Inr txs \<and> t \<in> set txs \<longrightarrow>
      CHR '','' \<notin> set (amount t) \<and>
      (\<exists>m \<in> set (re_finditer tx_pattern False text). \<exists>g. group m 3 = Inr (Some g) \<and>
          amount t = filter (\<lambda>c. c \<noteq> CHR '','') g)) \<and>
   replace '','' [] ''1,234.56'' = ''1234.56'' \<and>
   extract_total_amount_due ''Total amount due 1,234.56'' = Inr (Some ''1234.56'') \<and>
   extract_transactions ''01/02/2024 GROCERY STORE 1,234.56'' =
     Inr [\<lparr>date = Some ''01/02/2024'', description = ''GROCERY STORE'', amount = ''1234.56''\<rparr>]"
proof -
  have 1: "CHR '','' \<notin> set a \<and>
      (\<exists>pat \<in> set total_patterns. \<exists>m g. re_search pat True text = Some m \<and>
          group m 1 = Inr (Some g) \<and> a = filter (\<lambda>c. c \<noteq> CHR '','') g)"
    if "extract_total_amount_due text = Inr (Some a)"
  proof -
    from try_patterns_Some[OF that[unfolded extract_total_amount_due_def]]
    obtain pat m where pat: "pat \<in> set total_patterns" and m: "re_search pat True text = Some m"
      and r: "(case group m 1 of Inl e \<Rightarrow> Inl e | Inr None \<Rightarrow> Inl AttributeError
               | Inr (Some a) \<Rightarrow> Inr (Some (replace '','' [] a))) = Inr (Some a)"
      by blast
    from r obtain g where g: "group m 1 = Inr (Some g)" and a: "a = replace '','' [] g"
      by (auto split: sum.splits option.splits)
    from a have a': "a = filter (\<lambda>c. c \<noteq> CHR '','') g" by (simp add: replace_comma)
    then have "CHR '','' \<notin> set a" by simp
    with pat m g a' show ?thesis by blast
  qed
  have 2: "CHR '','' \<notin> set (amount t) \<and>
      (\<exists>m \<in> set (re_finditer tx_pattern False text). \<exists>g. group m 3 = Inr (Some g) \<and>
          amount t = filter (\<lambda>c. c \<noteq> CHR '','') g)"
    if "extract_transactions text = Inr txs" "t \<in> set txs"
  proof -
    from extract_transactions_elem[OF that] obtain m g where
      m: "m \<in> set (re_finditer tx_pattern False text)" and g: "group m 3 = Inr (Some g)"
      and t: "amount t = replace '','' [] g" by auto
    from t have t': "amount t = filter (\<lambda>c. c \<noteq> CHR '','') g" by (simp add: replace_comma)
    then have "CHR '','' \<notin> set (amount t)" by simp
    with m g t' show ?thesis by blast
  qed
  have 3: "replace '','' [] ''1,234.56'' = ''1234.56''" by simp
  from 1 2 3 total_example_comma tx_example_comma show ?thesis by blast
qed

theorem amounts_without_commas_witness:
  "extract_total_amount_due ''Total amount due 1,234.56'' = Inr (Some ''1234.56'') \<and>
   CHR '','' \<notin> set ''1234.56''"
  using amounts_without_commas[of "''Total amount due 1,234.56''" "''1234.56''"]
  by simp

section \<open>Transactions\<close>

lemma tx_lang_nonempty: "w \<in> lang False tx_pattern \<Longrightarrow> w \<noteq> []"
proof -
  assume "w \<in> lang False tx_pattern"
  then obtain u v where "w = u @ v" "u \<in> lang False (Grp 1 date_re)"
    unfolding tx_pattern_def cat.simps lang_Seq by blast
  then obtain u1 u2 where "u = u1 @ u2" "u1 \<in> lang False (Rep [CDigit] 1 (Some 2) True)"
    unfolding date_re_def cat.simps lang.simps(8) lang_Seq by blast
  then have "1 \<le> length u1" by simp
  with \<open>w = u @ v\<close> \<open>u = u1 @ u2\<close> show "w \<noteq> []" by auto
qed

lemma found_at_length:
  assumes "found_at ic r s m"
  shows "\<exists>w \<in> lang ic r. m_end m - m_start m = length w"
proof -
  from assms obtain ms where
    m: "matches ic r (drop (m_start m) s) [] = (drop (m_end m) s, m_caps m) # ms"
    and le: "m_start m \<le> m_end m" "m_end m \<le> length s"
    by (auto simp: found_at_def)
  from m have "(drop (m_end m) s, m_caps m) \<in> set (matches ic r (drop (m_start m) s) [])"
    by simp
  from matches_lang[OF this] obtain w where w: "w \<in> lang ic r"
    "drop (m_start m) s = w @ drop (m_end m) s" by blast
  from w(2) have "length (drop (m_start m) s) = length (w @ drop (m_end m) s)"
    by (rule arg_cong)
  then have "length s - m_start m = length w + (length s - m_end m)" by simp
  with le have "m_end m - m_start m = length w" by arith
  with w(1) show ?thesis by blast
qed

lemma tx_match_nonempty:
  "m \<in> set (re_finditer tx_pattern False text) \<Longrightarrow> m_start m < m_end m"
proof -
  assume "m \<in> set (re_finditer tx_pattern False text)"
  from found_at_length[OF re_finditer_found[OF this]] obtain w where
    w: "w \<in> lang False tx_pattern" "m_end m - m_start m = length w" by blast
  from tx_lang_nonempty[OF w(1)] have "0 < length w" by simp
  with w(2) have "0 < m_end m - m_start m" by simp
  then show ?thesis by (simp only: zero_less_diff)
qed

text \<open>
  C3. \<open>extract_transactions\<close> returns at most ten records: the records of the first ten
  matches of the transaction pattern, one per match and in the order of the matches,
  which lie one after the other in the text (each ends before the next starts). Nothing
  is removed as a duplicate; with more than ten matches exactly ten records come back.
\<close>

theorem transactions_first_ten:
  "\<exists>txs. extract_transactions text = Inr txs \<and> length txs \<le> 10 \<and>
     list_all2 (\<lambda>m t. make_transaction m = Inr t)
       (take 10 (re_finditer tx_pattern False text)) txs \<and>
     sorted_wrt (\<lambda>a b. m_end a \<le> m_start b) (re_finditer tx_pattern False text) \<and>
     (\<forall>m \<in> set (re_finditer tx_pattern False text).
        found_at False tx_pattern text m \<and> m_start m < m_end m) \<and>
     (10 < length (re_finditer tx_pattern False text) \<longrightarrow> length txs = 10)"
proof -
  from extract_transactions_take[of "text"] obtain txs where
    e: "extract_transactions text = Inr txs"
    and l: "list_all2 (\<lambda>m t. make_transaction m = Inr t)
              (take 10 (re_finditer tx_pattern False text)) txs" by blast
  from list_all2_lengthD[OF l]
  have len: "length txs = min (length (re_finditer tx_pattern False text)) 10"
    by simp
  from len have le: "length txs \<le> 10" by simp
  from len have full: "10 < length (re_finditer tx_pattern False text) \<longrightarrow> length txs = 10"
    by simp
  have each: "\<forall>m \<in> set (re_finditer tx_pattern False text).
        found_at False tx_pattern text m \<and> m_start m < m_end m"
  proof
    fix m assume m: "m \<in> set (re_finditer tx_pattern False text)"
    from re_finditer_found[OF m] tx_match_nonempty[OF m]
    show "found_at False tx_pattern text m \<and> m_start m < m_end m" by simp
  qed
  have order: "sorted_wrt (\<lambda>a b. m_end a \<le> m_start b) (re_finditer tx_pattern False text)"
    by (rule re_finditer_sorted)
  show ?thesis
    by (rule exI[of _ txs]) (intro conjI e le l order each full)
qed

text \<open>Eleven identical transaction lines.\<close>

definition eleven_lines :: string where
  "eleven_lines = concat (replicate 11 ''1/2/24 TEA 1.50 '')"

lemma eleven_matches: "length (re_finditer tx_pattern False eleven_lines) = 11"
  by code_simp

lemma eleven_lines_transactions:
  "extract_transactions eleven_lines =
     Inr (replicate 10 \<lparr>date = Some ''1/2/24'', description = ''TEA'', amount = ''1.50''\<rparr>)"
  by code_simp

theorem transactions_first_ten_witness:
  "length (re_finditer tx_pattern False eleven_lines) = 11 \<and>
   extract_transactions eleven_lines =
     Inr (replicate 10 \<lparr>date = Some ''1/2/24'', description = ''TEA'', amount = ''1.50''\<rparr>)"
proof -
  from transactions_first_ten[of eleven_lines] obtain txs where
    "extract_transactions eleven_lines = Inr txs" "length txs \<le> 10" by blast
  with eleven_matches eleven_lines_transactions show ?thesis by simp
qed

section \<open>The field extractors\<close>

text \<open>\<open>first_hit pats text i m\<close>: pattern \<open>i\<close> is the first of the list that matches the text,
  and \<open>m\<close> is its match; \<open>no_hit\<close>: no pattern of the list matches.\<close>

definition first_hit :: "regex list \<Rightarrow> string \<Rightarrow> nat \<Rightarrow> rmatch \<Rightarrow> bool" where
  "first_hit pats text i m =
     (i < length pats \<and> re_search (pats ! i) True text = Some m \<and>
      (\<forall>j<i. re_search (pats ! j) True text = None))"

definition no_hit :: "regex list \<Rightarrow> string \<Rightarrow> bool" where
  "no_hit pats text = list_all (\<lambda>pat. re_search pat True text = None) pats"

lemma try_patterns_first_hit:
  "first_hit pats text i m \<Longrightarrow> try_patterns pats text found = found m"
proof (induction pats arbitrary: i)
  case Nil
  then show ?case by (simp add: first_hit_def)
next
  case (Cons pat pats)
  show ?case
  proof (cases i)
    case 0
    with Cons.prems show ?thesis by (simp add: first_hit_def)
  next
    case (Suc k)
    from Cons.prems Suc have "re_search ((pat # pats) ! 0) True text = None"
      unfolding first_hit_def by blast
    then have no: "re_search pat True text = None" by simp
    have "first_hit pats text k m"
      unfolding first_hit_def
    proof (intro conjI allI impI)
      from Cons.prems Suc show "k < length pats" "re_search (pats ! k) True text = Some m"
        by (simp_all add: first_hit_def)
    next
      fix j assume "j < k"
      then have "Suc j < i" using Suc by simp
      with Cons.prems have "re_search ((pat # pats) ! Suc j) True text = None"
        unfolding first_hit_def by blast
      then show "re_search (pats ! j) True text = None" by simp
    qed
    from Cons.IH[OF this] no show ?thesis by simp
  qed
qed

lemma try_patterns_no_hit:
  "no_hit pats text \<Longrightarrow> try_patterns pats text found = Inr None"
  by (induction pats) (simp_all add: no_hit_def)

lemma first_hit_mem: "first_hit pats text i m \<Longrightarrow> pats ! i \<in> set pats"
  by (simp add: first_hit_def)

text \<open>
  C2, as amended. Each field extractor searches its patterns in order, case-insensitively,
  in the text as it is, and returns from the first pattern that matches, whatever a later
  pattern would find: \<open>extract_card_last_four\<close> and \<open>extract_payment_due_date\<close> return
  group 1 of that match, \<open>extract_billing_cycle\<close> its groups 1 and 2, and
  \<open>extract_total_amount_due\<close> group 1 with the commas removed. When no pattern matches,
  the extractor returns \<open>None\<close>, as a value and not as an error.
\<close>

theorem field_extractors_first_match:
  "(first_hit card_patterns text i m \<longrightarrow>
      (\<exists>g. group m 1 = Inr (Some g) \<and> extract_card_last_four text = Inr (Some g))) \<and>
   (first_hit billing_patterns text i m \<longrightarrow>
      (\<exists>a b. group m 1 = Inr (Some a) \<and> group m 2 = Inr (Some b) \<and>
         extract_billing_cycle text = Inr (Some \<lparr>start_date = Some a, end_date = Some b\<rparr>))) \<and>
   (first_hit due_patterns text i m \<longrightarrow>
      (\<exists>g. group m 1 = Inr (Some g) \<and> extract_payment_due_date text = Inr (Some g))) \<and>
   (first_hit total_patterns text i m \<longrightarrow>
      (\<exists>g. group m 1 = Inr (Some g) \<and>
         extract_total_amount_due text = Inr (Some (filter (\<lambda>c. c \<noteq> CHR '','') g)))) \<and>
   (no_hit card_patterns text \<longrightarrow> extract_card_last_four text = Inr None) \<and>
   (no_hit billing_patterns text \<longrightarrow> extract_billing_cycle text = Inr None) \<and>
   (no_hit due_patterns text \<longrightarrow> extract_payment_due_date text = Inr None) \<and>
   (no_hit total_patterns text \<longrightarrow> extract_total_amount_due text = Inr None)"
proof -
  have 1: "\<exists>g. group m 1 = Inr (Some g) \<and> extract_card_last_four text = Inr (Some g)"
    if h: "first_hit card_patterns text i m"
  proof -
    from h have s: "re_search (card_patterns ! i) True text = Some m" by (simp add: first_hit_def)
    from card_patterns_bind[OF first_hit_mem[OF h]]
    have b: "binds (card_patterns ! i) 1" "1 \<le> ngroups (card_patterns ! i)" by simp_all
    from re_search_group[OF s b] obtain g where g: "group m 1 = Inr (Some g)" by blast
    have "extract_card_last_four text = group m 1"
      unfolding extract_card_last_four_def by (rule try_patterns_first_hit[OF h])
    with g have "extract_card_last_four text = Inr (Some g)" by simp
    with g show ?thesis by blast
  qed
  have 2: "\<exists>a b. group m 1 = Inr (Some a) \<and> group m 2 = Inr (Some b) \<and>
         extract_billing_cycle text = Inr (Some \<lparr>start_date = Some a, end_date = Some b\<rparr>)"
    if h: "first_hit billing_patterns text i m"
  proof -
    from h have s: "re_search (billing_patterns ! i) True text = Some m"
      by (simp add: first_hit_def)
    from billing_patterns_bind[OF first_hit_mem[OF h]]
    have b: "binds (billing_patterns ! i) 1" "binds (billing_patterns ! i) 2"
      "1 \<le> ngroups (billing_patterns ! i)" "2 \<le> ngroups (billing_patterns ! i)" by simp_all
    from re_search_group[OF s b(1) b(3)] obtain a where a: "group m 1 = Inr (Some a)" by blast
    from re_search_group[OF s b(2) b(4)] obtain c where c: "group m 2 = Inr (Some c)" by blast
    have "extract_billing_cycle text =
        (case group m 1 of Inl e \<Rightarrow> Inl e
         | Inr a \<Rightarrow> (case group m 2 of Inl e \<Rightarrow> Inl e
             | Inr b \<Rightarrow> Inr (Some \<lparr>start_date = a, end_date = b\<rparr>)))"
      unfolding extract_billing_cycle_def by (rule try_patterns_first_hit[OF h])
    with a c
    have "extract_billing_cycle text = Inr (Some \<lparr>start_date = Some a, end_date = Some c\<rparr>)"
      by simp
    with a c show ?thesis by blast
  qed
  have 3: "\<exists>g. group m 1 = Inr (Some g) \<and> extract_payment_due_date text = Inr (Some g)"
    if h: "first_hit due_patterns text i m"
  proof -
    from h have s: "re_search (due_patterns ! i) True text = Some m" by (simp add: first_hit_def)
    from due_patterns_bind[OF first_hit_mem[OF h]]
    have b: "binds (due_patterns ! i) 1" "1 \<le> ngroups (due_patterns ! i)" by simp_all
    from re_search_group[OF s b] obtain g where g: "group m 1 = Inr (Some g)" by blast
    have "extract_payment_due_date text = group m 1"
      unfolding extract_payment_due_date_def by (rule try_patterns_first_hit[OF h])
    with g have "extract_payment_due_date text = Inr (Some g)" by simp
    with g show ?thesis by blast
  qed
  have 4: "\<exists>g. group m 1 = Inr (Some g) \<and>
         extract_total_amount_due text = Inr (Some (filter (\<lambda>c. c \<noteq> CHR '','') g))"
    if h: "first_hit total_patterns text i m"
  proof -
    from h have s: "re_search (total_patterns ! i) True text = Some m" by (simp add: first_hit_def)
    from total_patterns_bind[OF first_hit_mem[OF h]]
    have b: "binds (total_patterns ! i) 1" "1 \<le> ngroups (total_patterns ! i)" by simp_all
    from re_search_group[OF s b] obtain g where g: "group m 1 = Inr (Some g)" by blast
    have "extract_total_amount_due text =
        (case group m 1 of Inl e \<Rightarrow> Inl e | Inr None \<Rightarrow> Inl AttributeError
         | Inr (Some a) \<Rightarrow> Inr (Some (replace '','' [] a)))"
      unfolding extract_total_amount_due_def by (rule try_patterns_first_hit[OF h])
    with g
    have "extract_total_amount_due text = Inr (Some (filter (\<lambda>c. c \<noteq> CHR '','') g))"
      by (simp add: replace_comma)
    with g show ?thesis by blast
  qed
  have 5: "no_hit card_patterns text \<longrightarrow> extract_card_last_four text = Inr None"
    by (simp add: extract_card_last_four_def try_patterns_no_hit)
  have 6: "no_hit billing_patterns text \<longrightarrow> extract_billing_cycle text = Inr None"
    by (simp add: extract_billing_cycle_def try_patterns_no_hit)
  have 7: "no_hit due_patterns text \<longrightarrow> extract_payment_due_date text = Inr None"
    by (simp add: extract_payment_due_date_def try_patterns_no_hit)
  have 8: "no_hit total_patterns text \<longrightarrow> extract_total_amount_due text = Inr None"
    by (simp add: extract_total_amount_due_def try_patterns_no_hit)
  show ?thesis
    by (intro conjI impI 1 2 3 4 5[rule_format] 6[rule_format] 7[rule_format] 8[rule_format])
qed

lemma due_example_skipped:
  "re_search (due_patterns ! 0) True ''Due date 01/02/2024. Please pay by 03/04/2024'' = None"
  by code_simp

lemma due_example_found:
  "re_search (due_patterns ! 1) True ''Due date 01/02/2024. Please pay by 03/04/2024'' =
     Some \<lparr>m_start = 0, m_end = 19, m_groups = 1, m_caps = [(1, ''01/02/2024'')]\<rparr>"
  by code_simp

lemma due_example_later:
  "re_search (due_patterns ! 2) True ''Due date 01/02/2024. Please pay by 03/04/2024'' =
     Some \<lparr>m_start = 21, m_end = 45, m_groups = 1, m_caps = [(1, ''03/04/2024'')]\<rparr>"
  by code_simp

theorem field_extractors_first_match_witness:
  "first_hit due_patterns ''Due date 01/02/2024. Please pay by 03/04/2024'' 1
     \<lparr>m_start = 0, m_end = 19, m_groups = 1, m_caps = [(1, ''01/02/2024'')]\<rparr> \<and>
   re_search (due_patterns ! 2) True ''Due date 01/02/2024. Please pay by 03/04/2024'' =
     Some \<lparr>m_start = 21, m_end = 45, m_groups = 1, m_caps = [(1, ''03/04/2024'')]\<rparr> \<and>
   extract_payment_due_date ''Due date 01/02/2024. Please pay by 03/04/2024'' =
     Inr (Some ''01/02/2024'')"
proof -
  let ?t = "''Due date 01/02/2024. Please pay by 03/04/2024''"
  let ?m = "\<lparr>m_start = 0, m_end = 19, m_groups = 1, m_caps = [(1, ''01/02/2024'')]\<rparr>"
  have len: "1 < length due_patterns" by (simp add: due_patterns_def)
  have "\<forall>j<1. re_search (due_patterns ! j) True ?t = None"
    using due_example_skipped by simp
  with len due_example_found have h: "first_hit due_patterns ?t 1 ?m"
    unfolding first_hit_def by blast
  have g: "group ?m 1 = Inr (Some ''01/02/2024'')" by (simp add: group_def)
  from field_extractors_first_match[of "?t" 1 ?m] h g
  have "extract_payment_due_date ?t = Inr (Some ''01/02/2024'')" by auto
  with h due_example_later show ?thesis by blast
qed

lemma total_example_found:
  "re_search (total_patterns ! 0) True ''Total due 1,234'' =
     Some \<lparr>m_start = 0, m_end = 15, m_groups = 1, m_caps = [(1, ''1,234'')]\<rparr>"
  by code_simp

lemma total_example_result: "extract_total_amount_due ''Total due 1,234'' = Inr (Some ''1234'')"
  by code_simp

theorem field_extractors_group_counterexample:
  "first_hit total_patterns ''Total due 1,234'' 0
     \<lparr>m_start = 0, m_end = 15, m_groups = 1, m_caps = [(1, ''1,234'')]\<rparr> \<and>
   group \<lparr>m_start = 0, m_end = 15, m_groups = 1, m_caps = [(1, ''1,234'')]\<rparr> 1 =
     Inr (Some ''1,234'') \<and>
   extract_total_amount_due ''Total due 1,234'' = Inr (Some ''1234'') \<and>
   extract_total_amount_due ''Total due 1,234'' \<noteq> Inr (Some ''1,234'')"
proof -
  have len: "0 < length total_patterns" by (simp add: total_patterns_def)
  with total_example_found have "first_hit total_patterns ''Total due 1,234'' 0
     \<lparr>m_start = 0, m_end = 15, m_groups = 1, m_caps = [(1, ''1,234'')]\<rparr>"
    unfolding first_hit_def by simp
  moreover have "group \<lparr>m_start = 0, m_end = 15, m_groups = 1, m_caps = [(1, ''1,234'')]\<rparr> 1 =
     Inr (Some ''1,234'')" by (simp add: group_def)
  ultimately show ?thesis using total_example_result by simp
qed

text \<open>The patterns of \<open>extract_billing_cycle\<close> cut after the start date: what can match
  when a text has a start date and no end date.\<close>

definition billing_start_only :: "regex list" where
  "billing_start_only =
    [ cat [alts [str ''billing'', str ''statement''], ws_plus,
           alts [str ''period'', str ''cycle'', str ''date''], ws_colon_star, Grp 1 date_re],
      cat [str ''statement'', ws_plus, str ''from'', ws_colon_star, Grp 1 date_re],
      Grp 1 date_re ]"

lemma try_patterns_None_or_Some:
  "try_patterns pats text found = Inr v \<Longrightarrow>
     v = None \<or> (\<exists>pat \<in> set pats. \<exists>m. re_search pat True text = Some m \<and> found m = Inr v)"
  by (induction pats) (auto split: option.splits)

text \<open>
  C4. \<open>extract_billing_cycle\<close> returns \<open>None\<close> or a record whose start and end date are
  both there, groups 1 and 2 of one match of one pattern. When no whole pattern matches
  the result is \<open>None\<close>, also when the part of a pattern up to the start date matches.
\<close>

theorem billing_cycle_all_or_nothing:
  "(extract_billing_cycle text = Inr None \<or>
    (\<exists>pat \<in> set billing_patterns. \<exists>m a b. re_search pat True text = Some m \<and>
        group m 1 = Inr (Some a) \<and> group m 2 = Inr (Some b) \<and>
        extract_billing_cycle text = Inr (Some \<lparr>start_date = Some a, end_date = Some b\<rparr>))) \<and>
   (no_hit billing_patterns text \<longrightarrow> extract_billing_cycle text = Inr None) \<and>
   (\<not> no_hit billing_start_only text \<and> no_hit billing_patterns text \<longrightarrow>
      extract_billing_cycle text = Inr None)"
proof -
  have none: "extract_billing_cycle text = Inr None" if "no_hit billing_patterns text"
    using that by (simp add: extract_billing_cycle_def try_patterns_no_hit)
  obtain v where v: "extract_billing_cycle text = Inr v"
    using extract_billing_cycle_total by blast
  have 1: "extract_billing_cycle text = Inr None \<or>
    (\<exists>pat \<in> set billing_patterns. \<exists>m a b. re_search pat True text = Some m \<and>
        group m 1 = Inr (Some a) \<and> group m 2 = Inr (Some b) \<and>
        extract_billing_cycle text = Inr (Some \<lparr>start_date = Some a, end_date = Some b\<rparr>))"
  proof (cases v)
    case None
    with v show ?thesis by simp
  next
    case (Some bc)
    from try_patterns_None_or_Some[OF v[unfolded extract_billing_cycle_def]] Some
    obtain pat m where pat: "pat \<in> set billing_patterns"
      and s: "re_search pat True text = Some m"
      and f: "(case group m 1 of Inl e \<Rightarrow> Inl e
         | Inr a \<Rightarrow> (case group m 2 of Inl e \<Rightarrow> Inl e
             | Inr b \<Rightarrow> Inr (Some \<lparr>start_date = a, end_date = b\<rparr>))) = Inr (Some bc)"
      by auto
    from billing_patterns_bind[OF pat]
    have b: "binds pat 1" "binds pat 2" "1 \<le> ngroups pat" "2 \<le> ngroups pat" by simp_all
    from re_search_group[OF s b(1) b(3)] obtain a where a: "group m 1 = Inr (Some a)" by blast
    from re_search_group[OF s b(2) b(4)] obtain c where c: "group m 2 = Inr (Some c)" by blast
    from f a c have "bc = \<lparr>start_date = Some a, end_date = Some c\<rparr>" by simp
    with v Some have "extract_billing_cycle text =
        Inr (Some \<lparr>start_date = Some a, end_date = Some c\<rparr>)" by simp
    with pat s a c show ?thesis by blast
  qed
  from 1 none show ?thesis by blast
qed

lemma billing_example_start_only:
  "\<not> no_hit billing_start_only ''Statement period 01/01/2024'' \<and>
   no_hit billing_patterns ''Statement period 01/01/2024''"
  by code_simp

lemma billing_example_both:
  "extract_billing_cycle ''Billing period: 01/01/2024 - 31/01/2024'' =
     Inr (Some \<lparr>start_date = Some ''01/01/2024'', end_date = Some ''31/01/2024''\<rparr>)"
  by code_simp

theorem billing_cycle_all_or_nothing_witness:
  "\<not> no_hit billing_start_only ''Statement period 01/01/2024'' \<and>
   no_hit billing_patterns ''Statement period 01/01/2024'' \<and>
   extract_billing_cycle ''Statement period 01/01/2024'' = Inr None \<and>
   extract_billing_cycle ''Billing period: 01/01/2024 - 31/01/2024'' =
     Inr (Some \<lparr>start_date = Some ''01/01/2024'', end_date = Some ''31/01/2024''\<rparr>)"
  using billing_cycle_all_or_nothing[of "''Statement period 01/01/2024''"]
    billing_example_start_only billing_example_both
  by blast

section \<open>The scenario\<close>

text \<open>The text of the scenario of the specification.\<close>

definition scenario_text :: string where
  "scenario_text = ''American Express ... Card ending XXXXXXXXXX1234 ... Statement period 01/01/2024 to 31/01/2024 ... Payment due date 15/02/2024 ... Total amount due Rs. 12,345.67 ... 05/01/2024 COFFEE SHOP 450.00''"

lemma scenario_issuer: "issuer_name scenario_text = ''American Express''"
  by code_simp

lemma scenario_card: "extract_card_last_four scenario_text = Inr (Some ''1234'')"
  by code_simp

lemma scenario_cycle:
  "extract_billing_cycle scenario_text =
     Inr (Some \<lparr>start_date = Some ''01/01/2024'', end_date = Some ''31/01/2024''\<rparr>)"
  by code_simp

lemma scenario_due: "extract_payment_due_date scenario_text = Inr (Some ''15/02/2024'')"
  by code_simp

lemma scenario_total: "extract_total_amount_due scenario_text = Inr (Some ''12345.67'')"
  by code_simp

lemma scenario_transactions:
  "extract_transactions scenario_text =
     Inr [\<lparr>date = Some ''15/02/2024'', description = ''... Total amount due'',
            amount = ''12345.67''\<rparr>,
          \<lparr>date = Some ''05/01/2024'', description = ''COFFEE SHOP'', amount = ''450.00''\<rparr>]"
  by code_simp

lemma parse_content_transactions:
  "parse_content p = Inr (r, p') \<Longrightarrow> extract_transactions (text_content p) = Inr (r_transactions r)"
  by (auto simp: parse_content_def identify_issuer_def Let_def split: sum.splits)

text \<open>
  C5, as amended. On the scenario text the parse gives issuer "American Express", card
  "1234", billing cycle 01/01/2024 to 31/01/2024, due date "15/02/2024", total "12345.67",
  and two transactions: the due date followed by "... Total amount due" and the amount
  12345.67 has the shape of a transaction line and comes first, the coffee shop second.
\<close>

theorem scenario_parse:
  "parse_content \<lparr>pdf_path = path, text_content = ''American Express ... Card ending XXXXXXXXXX1234 ... Statement period 01/01/2024 to 31/01/2024 ... Payment due date 15/02/2024 ... Total amount due Rs. 12,345.67 ... 05/01/2024 COFFEE SHOP 450.00'', issuer = None\<rparr> =
     Inr (\<lparr>r_issuer = ''American Express'', r_card_last_four = Some ''1234'',
            r_billing_cycle =
              Some \<lparr>start_date = Some ''01/01/2024'', end_date = Some ''31/01/2024''\<rparr>,
            r_payment_due_date = Some ''15/02/2024'',
            r_total_amount_due = Some ''12345.67'',
            r_transactions =
              [\<lparr>date = Some ''15/02/2024'', description = ''... Total amount due'',
                 amount = ''12345.67''\<rparr>,
               \<lparr>date = Some ''05/01/2024'', description = ''COFFEE SHOP'',
                 amount = ''450.00''\<rparr>]\<rparr>,
          \<lparr>pdf_path = path, text_content = ''American Express ... Card ending XXXXXXXXXX1234 ... Statement period 01/01/2024 to 31/01/2024 ... Payment due date 15/02/2024 ... Total amount due Rs. 12,345.67 ... 05/01/2024 COFFEE SHOP 450.00'',
             issuer = Some ''American Express''\<rparr>)"
  unfolding scenario_text_def[symmetric]
  by (simp add: parse_content_def identify_issuer_def Let_def scenario_issuer scenario_card
      scenario_cycle scenario_due scenario_total scenario_transactions)

theorem scenario_one_transaction_counterexample:
  "\<not> (\<exists>p p'. text_content p = ''American Express ... Card ending XXXXXXXXXX1234 ... Statement period 01/01/2024 to 31/01/2024 ... Payment due date 15/02/2024 ... Total amount due Rs. 12,345.67 ... 05/01/2024 COFFEE SHOP 450.00'' \<and>
      parse_content p =
        Inr (\<lparr>r_issuer = ''American Express'', r_card_last_four = Some ''1234'',
               r_billing_cycle =
                 Some \<lparr>start_date = Some ''01/01/2024'', end_date = Some ''31/01/2024''\<rparr>,
               r_payment_due_date = Some ''15/02/2024'',
               r_total_amount_due = Some ''12345.67'',
               r_transactions =
                 [\<lparr>date = Some ''05/01/2024'', description = ''COFFEE SHOP'',
                    amount = ''450.00''\<rparr>]\<rparr>, p'))"
  unfolding scenario_text_def[symmetric]
proof
  assume "\<exists>p p'. text_content p = scenario_text \<and>
      parse_content p =
        Inr (\<lparr>r_issuer = ''American Express'', r_card_last_four = Some ''1234'',
               r_billing_cycle =
                 Some \<lparr>start_date = Some ''01/01/2024'', end_date = Some ''31/01/2024''\<rparr>,
               r_payment_due_date = Some ''15/02/2024'',
               r_total_amount_due = Some ''12345.67'',
               r_transactions =
                 [\<lparr>date = Some ''05/01/2024'', description = ''COFFEE SHOP'',
                    amount = ''450.00''\<rparr>]\<rparr>, p')"
  then obtain p :: parser and p' where t: "text_content p = scenario_text"
    and r: "parse_content p =
        Inr (\<lparr>r_issuer = ''American Express'', r_card_last_four = Some ''1234'',
               r_billing_cycle =
                 Some \<lparr>start_date = Some ''01/01/2024'', end_date = Some ''31/01/2024''\<rparr>,
               r_payment_due_date = Some ''15/02/2024'',
               r_total_amount_due = Some ''12345.67'',
               r_transactions =
                 [\<lparr>date = Some ''05/01/2024'', description = ''COFFEE SHOP'',
                    amount = ''450.00''\<rparr>]\<rparr>, p')"
    by blast
  from parse_content_transactions[OF r] t scenario_transactions
  show False by simp
qed

end
